theory Spec2Isabelle
  imports Main
begin

section \<open>Lattices of torsion classes: the model\<close>

text \<open>
  The program (\<open>tors_lattice.py\<close>) is a class over a finite lattice kept by an order
  library. A lattice is modelled by the list of its elements and its order relation;
  the operations the library supplies are computed from these two. Python sets are
  modelled by duplicate-free lists, Python exceptions by the left summand of a sum type,
  Python's \<open>None\<close> by \<open>None\<close>.
\<close>

subsection \<open>Errors and results\<close>

datatype error =
    NotAnElement
  | NotAnInterval
  | NotACoveringRelation
  | NotJoinIrreducible
  | NotSimple
  | IndexError
  | UnpackError
  | NotALattice

definition bindE :: "error + 'a \<Rightarrow> ('a \<Rightarrow> error + 'b) \<Rightarrow> error + 'b" where
  "bindE m f = (case m of Inl e \<Rightarrow> Inl e | Inr v \<Rightarrow> f v)"

text \<open>A comprehension \<open>[x for x in xs if p(x)]\<close> whose test may raise.\<close>

fun filterE :: "('a \<Rightarrow> error + bool) \<Rightarrow> 'a list \<Rightarrow> error + 'a list" where
  "filterE p [] = Inr []"
| "filterE p (x # xs) =
     bindE (p x) (\<lambda>b. bindE (filterE p xs) (\<lambda>ys. Inr (if b then x # ys else ys)))"

subsection \<open>The lattice and the operations of the order library\<close>

text \<open>
  Besides its elements and its order, a lattice carries the order in which the Python
  runtime lists a set of its elements: a Python set is a hash table, and
  \<open>set_order L xs\<close> is the list that \<open>list(s)\<close> makes of the set \<open>s\<close> with the members
  \<open>xs\<close>. The source depends on it in \<open>list(bricks_in)[0]\<close> only.
\<close>

record 'a lattice =
  elements :: "'a list"
  leq :: "'a \<Rightarrow> 'a \<Rightarrow> bool"
  set_order :: "'a list \<Rightarrow> 'a list"

text \<open>
  Modelled from the spec: \<open>coerce(x)\<close> of the Lattice Primitives Adapter (the call
  \<open>self(x)\<close> of the source), which fails with \<open>NotAnElement\<close> on a value that is not
  an element of the lattice.
\<close>

definition coerce :: "'a lattice \<Rightarrow> 'a \<Rightarrow> error + 'a" where
  "coerce L x = (if x \<in> set (elements L) then Inr x else Inl NotAnElement)"

text \<open>Modelled from the spec: \<open>leq(a,b)\<close> and \<open>geq(a,b)\<close> of the adapter.\<close>

definition is_lequal :: "'a lattice \<Rightarrow> 'a \<Rightarrow> 'a \<Rightarrow> bool" where
  "is_lequal L x y = leq L x y"

definition is_gequal :: "'a lattice \<Rightarrow> 'a \<Rightarrow> 'a \<Rightarrow> bool" where
  "is_gequal L x y = leq L y x"

text \<open>
  Modelled from the spec: \<open>geq\<close> of the adapter on Python values that may be
  \<open>None\<close>; a value that is not an element makes the comparison fail.
\<close>

definition is_gequal_val :: "'a lattice \<Rightarrow> 'a option \<Rightarrow> 'a option \<Rightarrow> error + bool" where
  "is_gequal_val L x y =
     (case x of None \<Rightarrow> Inl NotAnElement
      | Some a \<Rightarrow> (case y of None \<Rightarrow> Inl NotAnElement
                  | Some b \<Rightarrow> Inr (is_gequal L a b)))"

definition lt :: "'a lattice \<Rightarrow> 'a \<Rightarrow> 'a \<Rightarrow> bool" where
  "lt L x y = (leq L x y \<and> x \<noteq> y)"

text \<open>
  Modelled from the spec: \<open>join(subset)\<close> and \<open>meet(subset)\<close> of the adapter, the least
  upper bound and the greatest lower bound of the given elements (of the empty list:
  the bottom and the top element). \<open>None\<close> when there is no such bound, which does
  not happen in a lattice.
\<close>

definition join :: "'a lattice \<Rightarrow> 'a list \<Rightarrow> 'a option" where
  "join L xs =
     find (\<lambda>z. (\<forall>x\<in>set xs. leq L x z) \<and>
               (\<forall>w\<in>set (elements L). (\<forall>x\<in>set xs. leq L x w) \<longrightarrow> leq L z w))
          (elements L)"

definition meet :: "'a lattice \<Rightarrow> 'a list \<Rightarrow> 'a option" where
  "meet L xs =
     find (\<lambda>z. (\<forall>x\<in>set xs. leq L z x) \<and>
               (\<forall>w\<in>set (elements L). (\<forall>x\<in>set xs. leq L w x) \<longrightarrow> leq L w z))
          (elements L)"

text \<open>Modelled from the spec: \<open>bottom()\<close> and \<open>top()\<close> of the adapter.\<close>

definition bottom :: "'a lattice \<Rightarrow> 'a option" where
  "bottom L = find (\<lambda>b. \<forall>x\<in>set (elements L). leq L b x) (elements L)"

definition top_L :: "'a lattice \<Rightarrow> 'a option" where
  "top_L L = find (\<lambda>t. \<forall>x\<in>set (elements L). leq L x t) (elements L)"

text \<open>
  Modelled from the spec: \<open>upperCovers(x)\<close> and \<open>lowerCovers(x)\<close> of the adapter, the
  immediate covers in the Hasse diagram.
\<close>

definition upper_covers :: "'a lattice \<Rightarrow> 'a \<Rightarrow> 'a list" where
  "upper_covers L x =
     [y \<leftarrow> elements L. lt L x y \<and> (\<forall>z\<in>set (elements L). \<not> (lt L x z \<and> lt L z y))]"

definition lower_covers :: "'a lattice \<Rightarrow> 'a \<Rightarrow> 'a list" where
  "lower_covers L x =
     [y \<leftarrow> elements L. lt L y x \<and> (\<forall>z\<in>set (elements L). \<not> (lt L y z \<and> lt L z x))]"

text \<open>
  Modelled from the spec: \<open>joinIrreducibles()\<close> of the adapter; a join-irreducible
  element is an element with exactly one lower cover.
\<close>

definition join_irreducibles :: "'a lattice \<Rightarrow> 'a list" where
  "join_irreducibles L = [j \<leftarrow> elements L. length (lower_covers L j) = 1]"

text \<open>
  Modelled from the spec: \<open>canonicalJoinRepresentation(x)\<close> of the adapter, the minimal
  join-decomposition of \<open>x\<close>: an antichain with join \<open>x\<close> each of whose members lies
  below some member of every other list of elements with join \<open>x\<close>; \<open>None\<close> if there
  is none.
\<close>

definition canonical_joinands :: "'a lattice \<Rightarrow> 'a \<Rightarrow> 'a list option" where
  "canonical_joinands L x =
     (let below = [y \<leftarrow> elements L. leq L y x];
          reps = [B \<leftarrow> subseqs below. join L B = Some x]
      in find (\<lambda>A. (\<forall>a\<in>set A. \<forall>b\<in>set A. leq L a b \<longrightarrow> a = b) \<and>
                    (\<forall>B\<in>set reps. \<forall>a\<in>set A. \<exists>b\<in>set B. leq L a b))
              reps)"

text \<open>
  Modelled from the spec: the kappa map of the adapter's Hasse diagram. For a
  join-irreducible \<open>j\<close> with lower cover \<open>l\<close> it is the unique maximal element among
  the \<open>x\<close> with \<open>l \<le> x\<close> and not \<open>j \<le> x\<close>; \<open>None\<close> if there is no unique maximal
  element, and for a \<open>j\<close> that is not join-irreducible.
\<close>

definition kappa_candidates :: "'a lattice \<Rightarrow> 'a \<Rightarrow> 'a \<Rightarrow> 'a list" where
  "kappa_candidates L j l = [x \<leftarrow> elements L. leq L l x \<and> \<not> leq L j x]"

definition maximal_in :: "'a lattice \<Rightarrow> 'a list \<Rightarrow> 'a \<Rightarrow> bool" where
  "maximal_in L C m = (m \<in> set C \<and> (\<forall>x\<in>set C. leq L m x \<longrightarrow> x = m))"

definition hasse_kappa :: "'a lattice \<Rightarrow> 'a \<Rightarrow> 'a option" where
  "hasse_kappa L j =
     (case lower_covers L j of
        [l] \<Rightarrow> (let C = kappa_candidates L j l
                in (case [m \<leftarrow> C. maximal_in L C m] of [m] \<Rightarrow> Some m | _ \<Rightarrow> None))
      | _ \<Rightarrow> None)"

text \<open>
  Modelled from the spec: \<open>meet\<close> of the adapter on a list of Python values; it fails
  when one of them is \<open>None\<close>.
\<close>

definition meet_vals :: "'a lattice \<Rightarrow> 'a option list \<Rightarrow> error + 'a" where
  "meet_vals L vs =
     (case those vs of
        None \<Rightarrow> Inl NotAnElement
      | Some xs \<Rightarrow> (case meet L xs of None \<Rightarrow> Inl NotALattice | Some m \<Rightarrow> Inr m))"

definition join_res :: "'a lattice \<Rightarrow> 'a list \<Rightarrow> error + 'a" where
  "join_res L xs = (case join L xs of None \<Rightarrow> Inl NotALattice | Some z \<Rightarrow> Inr z)"

definition meet_res :: "'a lattice \<Rightarrow> 'a list \<Rightarrow> error + 'a" where
  "meet_res L xs = (case meet L xs of None \<Rightarrow> Inl NotALattice | Some z \<Rightarrow> Inr z)"

text \<open>
  The lattices the program works on: finite partial orders with binary joins and
  meets, which are semidistributive.
\<close>

definition is_poset :: "'a lattice \<Rightarrow> bool" where
  "is_poset L =
     (distinct (elements L) \<and>
      (\<forall>x\<in>set (elements L). leq L x x) \<and>
      (\<forall>x\<in>set (elements L). \<forall>y\<in>set (elements L). leq L x y \<and> leq L y x \<longrightarrow> x = y) \<and>
      (\<forall>x\<in>set (elements L). \<forall>y\<in>set (elements L). \<forall>z\<in>set (elements L).
          leq L x y \<and> leq L y z \<longrightarrow> leq L x z))"

definition is_lattice :: "'a lattice \<Rightarrow> bool" where
  "is_lattice L =
     (is_poset L \<and> elements L \<noteq> [] \<and>
      (\<forall>x\<in>set (elements L). \<forall>y\<in>set (elements L).
          join L [x, y] \<noteq> None \<and> meet L [x, y] \<noteq> None))"

definition is_meet_semidistributive :: "'a lattice \<Rightarrow> bool" where
  "is_meet_semidistributive L =
     (\<forall>x\<in>set (elements L). \<forall>y\<in>set (elements L). \<forall>z\<in>set (elements L).
        meet L [x, y] = meet L [x, z] \<longrightarrow>
        Option.bind (join L [y, z]) (\<lambda>w. meet L [x, w]) = meet L [x, y])"

definition is_join_semidistributive :: "'a lattice \<Rightarrow> bool" where
  "is_join_semidistributive L =
     (\<forall>x\<in>set (elements L). \<forall>y\<in>set (elements L). \<forall>z\<in>set (elements L).
        join L [x, y] = join L [x, z] \<longrightarrow>
        Option.bind (meet L [y, z]) (\<lambda>w. join L [x, w]) = join L [x, y])"

definition is_semidistributive :: "'a lattice \<Rightarrow> bool" where
  "is_semidistributive L = (is_meet_semidistributive L \<and> is_join_semidistributive L)"

text \<open>
  The kappa map in the words of the specification: \<open>m\<close> is the unique maximal
  element among the elements \<open>x\<close> with \<open>l \<le> x\<close> and not \<open>j \<le> x\<close>, where \<open>l\<close> is
  the lower cover of \<open>j\<close>.
\<close>

definition skips :: "'a lattice \<Rightarrow> 'a \<Rightarrow> 'a \<Rightarrow> 'a \<Rightarrow> bool" where
  "skips L j l x = (x \<in> set (elements L) \<and> leq L l x \<and> \<not> leq L j x)"

definition maximal_skipping :: "'a lattice \<Rightarrow> 'a \<Rightarrow> 'a \<Rightarrow> 'a \<Rightarrow> bool" where
  "maximal_skipping L j l m =
     (skips L j l m \<and> (\<forall>x\<in>set (elements L). skips L j l x \<and> leq L m x \<longrightarrow> x = m))"

definition unique_maximal_skipping :: "'a lattice \<Rightarrow> 'a \<Rightarrow> 'a \<Rightarrow> 'a \<Rightarrow> bool" where
  "unique_maximal_skipping L j l m =
     (maximal_skipping L j l m \<and>
      (\<forall>m'\<in>set (elements L). maximal_skipping L j l m' \<longrightarrow> m' = m))"

text \<open>The opposite lattice; it turns facts about joins into facts about meets.\<close>

definition dual :: "'a lattice \<Rightarrow> 'a lattice" where
  "dual L = L\<lparr>leq := (\<lambda>x y. leq L y x)\<rparr>"

subsection \<open>The functions of \<open>tors_lattice.py\<close>\<close>

text \<open>\<open>_kappa(lattice, j)\<close>: the kappa of the Hasse diagram, \<open>None\<close> passed on.\<close>

definition kappa_of :: "'a lattice \<Rightarrow> 'a \<Rightarrow> 'a option" where
  "kappa_of L j = (case hasse_kappa L j of None \<Rightarrow> None | Some m \<Rightarrow> Some m)"

text \<open>
  \<open>_extended_kappa(lattice, x)\<close>: the meet of the kappas of the canonical joinands;
  every exception of the meet is caught and turned into \<open>None\<close>.
\<close>

definition extended_kappa :: "'a lattice \<Rightarrow> 'a \<Rightarrow> 'a option" where
  "extended_kappa L x =
     (case canonical_joinands L x of
        None \<Rightarrow> None
      | Some CJR \<Rightarrow>
          (let kappa_CJR = map (kappa_of L) CJR
           in (case meet_vals L kappa_CJR of Inl e \<Rightarrow> None | Inr m \<Rightarrow> Some m)))"

definition zero :: "'a lattice \<Rightarrow> 'a option" where
  "zero L = bottom L"

definition whole :: "'a lattice \<Rightarrow> 'a option" where
  "whole L = top_L L"

text \<open>\<open>simples\<close>: the upper covers of \<open>zero\<close>, as a set.\<close>

definition simples :: "'a lattice \<Rightarrow> error + 'a list" where
  "simples L =
     (case zero L of
        None \<Rightarrow> Inl NotAnElement
      | Some z \<Rightarrow> Inr (remdups (upper_covers L z)))"

definition all_bricks :: "'a lattice \<Rightarrow> 'a list" where
  "all_bricks L = remdups (join_irreducibles L)"

text \<open>The method \<open>kappa\<close>: the extended kappa of a coerced element.\<close>

definition kappa :: "'a lattice \<Rightarrow> 'a \<Rightarrow> error + 'a option" where
  "kappa L T = bindE (coerce L T) (\<lambda>T. Inr (extended_kappa L T))"

definition bricks_in_tors :: "'a lattice \<Rightarrow> 'a \<Rightarrow> error + 'a list" where
  "bricks_in_tors L T =
     bindE (coerce L T) (\<lambda>T. Inr [j \<leftarrow> all_bricks L. is_lequal L j T])"

definition bricks_in_torf :: "'a lattice \<Rightarrow> 'a \<Rightarrow> error + 'a list" where
  "bricks_in_torf L T =
     bindE (coerce L T) (\<lambda>T.
       filterE (\<lambda>j. bindE (kappa L j) (\<lambda>k. is_gequal_val L k (Some T))) (all_bricks L))"

text \<open>\<open>bricks(itv, check)\<close>; the intersection keeps the order of the first list.\<close>

definition bricks :: "'a lattice \<Rightarrow> 'a \<times> 'a \<Rightarrow> bool \<Rightarrow> error + 'a list" where
  "bricks L itv check =
     (case itv of (U, T) \<Rightarrow>
        bindE (coerce L U) (\<lambda>U. bindE (coerce L T) (\<lambda>T.
          if check \<and> \<not> is_lequal L U T then Inl NotAnInterval
          else bindE (bricks_in_tors L T) (\<lambda>a. bindE (bricks_in_torf L U) (\<lambda>b.
                 Inr [j \<leftarrow> a. j \<in> set b])))))"

text \<open>
  \<open>label(itv, check)\<close>. The nested call of \<open>bricks\<close> is made with its default
  \<open>check = True\<close>. \<open>list(bricks_in)\<close> lists the set in the order of the runtime, and
  \<open>[0]\<close> on an empty list is an \<open>IndexError\<close>.
\<close>

definition label :: "'a lattice \<Rightarrow> 'a \<times> 'a \<Rightarrow> bool \<Rightarrow> error + 'a" where
  "label L itv check =
     bindE (bricks L itv True) (\<lambda>bricks_in.
       if check \<and> length bricks_in > 1 then Inl NotACoveringRelation
       else (case set_order L bricks_in of [] \<Rightarrow> Inl IndexError | b # _ \<Rightarrow> Inr b))"

definition plus_L :: "'a lattice \<Rightarrow> 'a \<Rightarrow> error + 'a" where
  "plus_L L U =
     bindE (coerce L U) (\<lambda>U.
       if Some U = whole L then Inr U
       else join_res L (upper_covers L U))"

definition minus_L :: "'a lattice \<Rightarrow> 'a \<Rightarrow> error + 'a" where
  "minus_L L T =
     bindE (coerce L T) (\<lambda>T.
       if Some T = zero L then Inr T
       else meet_res L (lower_covers L T))"

definition is_wide_itv :: "'a lattice \<Rightarrow> 'a \<times> 'a \<Rightarrow> bool \<Rightarrow> error + bool" where
  "is_wide_itv L itv check =
     (case itv of (U, T) \<Rightarrow>
        bindE (coerce L U) (\<lambda>U. bindE (coerce L T) (\<lambda>T.
          if check \<and> \<not> is_lequal L U T then Inl NotAnInterval
          else if U = T then Inr True
          else (let covers = [x \<leftarrow> upper_covers L U. is_lequal L x T]
                in bindE (join_res L covers) (\<lambda>j. Inr (T = j))))))"

definition is_ice_itv :: "'a lattice \<Rightarrow> 'a \<times> 'a \<Rightarrow> bool \<Rightarrow> error + bool" where
  "is_ice_itv L itv check =
     (case itv of (U, T) \<Rightarrow>
        bindE (coerce L U) (\<lambda>U. bindE (coerce L T) (\<lambda>T.
          if check \<and> \<not> is_lequal L U T then Inl NotAnInterval
          else bindE (plus_L L U) (\<lambda>p. Inr (is_lequal L T p)))))"

definition is_ike_itv :: "'a lattice \<Rightarrow> 'a \<times> 'a \<Rightarrow> bool \<Rightarrow> error + bool" where
  "is_ike_itv L itv check =
     (case itv of (U, T) \<Rightarrow>
        bindE (coerce L U) (\<lambda>U. bindE (coerce L T) (\<lambda>T.
          if check \<and> \<not> is_lequal L U T then Inl NotAnInterval
          else bindE (minus_L L T) (\<lambda>m. Inr (is_lequal L m U)))))"

text \<open>
  \<open>wide_lequal(U, T)\<close>. Both kappas are computed first; Python's \<open>and\<close> compares
  them only when \<open>U \<le> T\<close> holds.
\<close>

definition wide_lequal :: "'a lattice \<Rightarrow> 'a \<Rightarrow> 'a \<Rightarrow> error + bool" where
  "wide_lequal L U T =
     bindE (coerce L U) (\<lambda>U. bindE (coerce L T) (\<lambda>T.
       bindE (kappa L U) (\<lambda>kappa_U. bindE (kappa L T) (\<lambda>kappa_T.
         if is_lequal L U T then is_gequal_val L kappa_U kappa_T else Inr False))))"

definition indec_tau_rigid :: "'a lattice \<Rightarrow> 'a list" where
  "indec_tau_rigid L = all_bricks L"

definition has_tau_rigid_summand :: "'a lattice \<Rightarrow> 'a \<Rightarrow> bool \<Rightarrow> error + 'a list" where
  "has_tau_rigid_summand L M check =
     bindE (coerce L M) (\<lambda>M.
       if check \<and> M \<notin> set (indec_tau_rigid L) then Inl NotJoinIrreducible
       else bindE (plus_L L M) (\<lambda>M_plus.
              Inr [T \<leftarrow> elements L. is_lequal L M T \<and> is_lequal L T M_plus]))"

definition projectives :: "'a lattice \<Rightarrow> 'a \<Rightarrow> error + 'a list" where
  "projectives L T =
     bindE (coerce L T) (\<lambda>T.
       filterE (\<lambda>M. bindE (has_tau_rigid_summand L M False) (\<lambda>S. Inr (T \<in> set S)))
               (indec_tau_rigid L))"

text \<open>
  \<open>number_of_projs(arg)\<close> tells an interval from an element by
  \<open>isinstance(arg, tuple)\<close>, so the Python values that matter are tuples and other
  values. A tuple is unpacked by \<open>U, T = arg\<close>, which raises unless it has exactly two
  components; any other value is paired with \<open>zero()\<close>.
\<close>

datatype 'a pyval = Atom 'a | Tuple "'a pyval list"

definition number_of_projs :: "'a pyval lattice \<Rightarrow> 'a pyval \<Rightarrow> error + nat" where
  "number_of_projs L arg =
     bindE (case arg of
              Tuple vs \<Rightarrow> (case vs of [U, T] \<Rightarrow> Inr (Some U, T) | _ \<Rightarrow> Inl UnpackError)
            | Atom _ \<Rightarrow> Inr (zero L, arg)) (\<lambda>(U, T).
       bindE (case U of None \<Rightarrow> Inl NotAnElement | Some U \<Rightarrow> coerce L U) (\<lambda>U.
       bindE (coerce L T) (\<lambda>T.
       bindE (projectives L T) (\<lambda>ps.
         Inr (length [M \<leftarrow> ps. \<not> is_lequal L M U])))))"

subsection \<open>Small lattices\<close>

text \<open>
  The Python runtime keeps a set of at most four small non-negative integers in a hash
  table of eight slots, the integer \<open>n\<close> in slot \<open>n mod 8\<close> when no two members share a
  slot, and lists it slot by slot. The sets of bricks of the three lattices of integers
  below are of this kind.
\<close>

definition small_int_order :: "nat list \<Rightarrow> nat list" where
  "small_int_order xs = sort_key (\<lambda>n. n mod 8) xs"

text \<open>
  The chain \<open>1 | 2 | 4 | 8\<close>, the divisors of 6 and the lattice \<open>M3\<close> (three atoms
  \<open>2\<close>, \<open>3\<close>, \<open>5\<close> between \<open>1\<close> and \<open>30\<close>), ordered by divisibility.
\<close>

definition chain4 :: "nat lattice" where
  "chain4 = \<lparr>elements = [1, 2, 4, 8], leq = (\<lambda>x y. x dvd y), set_order = small_int_order\<rparr>"

definition diamond :: "nat lattice" where
  "diamond = \<lparr>elements = [1, 2, 3, 6], leq = (\<lambda>x y. x dvd y), set_order = small_int_order\<rparr>"

definition m3 :: "nat lattice" where
  "m3 = \<lparr>elements = [1, 2, 3, 5, 30], leq = (\<lambda>x y. x dvd y),
          set_order = small_int_order\<rparr>"

text \<open>
  The lattice of the pairs \<open>(0,0)\<close>, \<open>(0,1)\<close>, \<open>(1,0)\<close>, \<open>(1,1)\<close> ordered
  componentwise; its elements are Python tuples. No function applied to it below
  lists a set, and its \<open>set_order\<close> is left as the identity.
\<close>

definition pair_leq :: "nat pyval \<Rightarrow> nat pyval \<Rightarrow> bool" where
  "pair_leq x y =
     (case (x, y) of
        (Tuple [Atom a, Atom b], Tuple [Atom c, Atom d]) \<Rightarrow> a \<le> c \<and> b \<le> d
      | _ \<Rightarrow> False)"

definition b2 :: "nat pyval lattice" where
  "b2 = \<lparr>elements = [Tuple [Atom 0, Atom 0], Tuple [Atom 0, Atom 1],
                        Tuple [Atom 1, Atom 0], Tuple [Atom 1, Atom 1]],
          leq = pair_leq, set_order = (\<lambda>xs. xs)\<rparr>"

section \<open>Results and errors\<close>

lemma bindE_Inr [simp]: "bindE (Inr v) f = f v"
  by (simp add: bindE_def)

lemma bindE_Inl [simp]: "bindE (Inl e) f = Inl e"
  by (simp add: bindE_def)

lemma coerce_elem [simp]: "x \<in> set (elements L) \<Longrightarrow> coerce L x = Inr x"
  by (simp add: coerce_def)

lemma filterE_Inl: "filterE p xs = Inl e \<Longrightarrow> \<exists>x\<in>set xs. p x = Inl e"
proof (induction xs)
  case Nil
  then show ?case by simp
next
  case (Cons x xs)
  then show ?case
    by (cases "p x"; cases "filterE p xs") auto
qed

lemma filterE_Inr:
  "(\<And>x. x \<in> set xs \<Longrightarrow> p x = Inr (q x)) \<Longrightarrow> filterE p xs = Inr (filter q xs)"
  by (induction xs) auto

lemma is_gequal_val_error: "is_gequal_val L x y = Inl e \<Longrightarrow> e = NotAnElement"
  by (auto simp: is_gequal_val_def split: option.splits)

lemma kappa_error: "kappa L x = Inl e \<Longrightarrow> e = NotAnElement"
  by (auto simp: kappa_def coerce_def split: if_splits)

lemma bricks_in_torf_error: "bricks_in_torf L U = Inl e \<Longrightarrow> e = NotAnElement"
proof -
  assume a: "bricks_in_torf L U = Inl e"
  show ?thesis
  proof (cases "U \<in> set (elements L)")
    case False
    with a show ?thesis by (simp add: bricks_in_torf_def coerce_def)
  next
    case True
    with a have "filterE (\<lambda>j. bindE (kappa L j) (\<lambda>k. is_gequal_val L k (Some U))) (all_bricks L) = Inl e"
      by (simp add: bricks_in_torf_def)
    then obtain j where "bindE (kappa L j) (\<lambda>k. is_gequal_val L k (Some U)) = Inl e"
      by (blast dest: filterE_Inl)
    then show ?thesis
      by (cases "kappa L j") (auto dest: kappa_error is_gequal_val_error)
  qed
qed

lemma bricks_in_tors_elem:
  "T \<in> set (elements L) \<Longrightarrow> bricks_in_tors L T = Inr [j \<leftarrow> all_bricks L. is_lequal L j T]"
  by (simp add: bricks_in_tors_def)

lemma those_map_Some [simp]: "those (map Some ks) = Some ks"
  by (induction ks) auto

lemma those_None_iff: "those vs = None \<longleftrightarrow> None \<in> set vs"
  by (induction vs) (auto split: option.splits)

section \<open>Orders\<close>

lemma poset_refl: "is_poset L \<Longrightarrow> x \<in> set (elements L) \<Longrightarrow> leq L x x"
  by (simp add: is_poset_def)

lemma poset_antisym:
  "is_poset L \<Longrightarrow> x \<in> set (elements L) \<Longrightarrow> y \<in> set (elements L) \<Longrightarrow>
   leq L x y \<Longrightarrow> leq L y x \<Longrightarrow> x = y"
  unfolding is_poset_def by blast

lemma poset_trans:
  "is_poset L \<Longrightarrow> x \<in> set (elements L) \<Longrightarrow> y \<in> set (elements L) \<Longrightarrow>
   z \<in> set (elements L) \<Longrightarrow> leq L x y \<Longrightarrow> leq L y z \<Longrightarrow> leq L x z"
  unfolding is_poset_def by blast

lemma poset_distinct: "is_poset L \<Longrightarrow> distinct (elements L)"
  by (simp add: is_poset_def)

lemma lattice_poset: "is_lattice L \<Longrightarrow> is_poset L"
  by (simp add: is_lattice_def)

lemma elements_dual [simp]: "elements (dual L) = elements L"
  by (simp add: dual_def)

lemma leq_dual [simp]: "leq (dual L) x y = leq L y x"
  by (simp add: dual_def)

lemma lt_dual [simp]: "lt (dual L) x y = lt L y x"
  by (auto simp: lt_def)

lemma join_dual: "join (dual L) xs = meet L xs"
  by (simp add: join_def meet_def)

lemma meet_dual: "meet (dual L) xs = join L xs"
  by (simp add: join_def meet_def)

lemma bottom_dual: "bottom (dual L) = top_L L"
  by (simp add: bottom_def top_L_def)

lemma top_dual: "top_L (dual L) = bottom L"
  by (simp add: bottom_def top_L_def)

lemma upper_covers_dual: "upper_covers (dual L) x = lower_covers L x"
  by (simp add: upper_covers_def lower_covers_def conj_commute)

lemma lower_covers_dual: "lower_covers (dual L) x = upper_covers L x"
  by (simp add: upper_covers_def lower_covers_def conj_commute)

lemma is_poset_dual: "is_poset (dual L) = is_poset L"
  unfolding is_poset_def by (simp only: elements_dual leq_dual) blast

lemma is_lattice_dual: "is_lattice (dual L) = is_lattice L"
  unfolding is_lattice_def
  by (simp only: is_poset_dual elements_dual join_dual meet_dual) blast

lemma is_meet_semidistributive_dual:
  "is_meet_semidistributive (dual L) = is_join_semidistributive L"
  by (simp add: is_meet_semidistributive_def is_join_semidistributive_def join_dual meet_dual)

section \<open>Joins and meets\<close>

lemma find_SomeD: "find P xs = Some x \<Longrightarrow> P x \<and> x \<in> set xs"
  by (auto simp: find_Some_iff)

lemma find_exists: "x \<in> set xs \<Longrightarrow> P x \<Longrightarrow> \<exists>y. find P xs = Some y"
  by (cases "find P xs") (auto simp: find_None_iff)

lemma join_elem: "join L xs = Some z \<Longrightarrow> z \<in> set (elements L)"
  unfolding join_def by (drule find_SomeD) simp

lemma join_upper: "join L xs = Some z \<Longrightarrow> x \<in> set xs \<Longrightarrow> leq L x z"
  unfolding join_def by (drule find_SomeD) simp

lemma join_least:
  "join L xs = Some z \<Longrightarrow> w \<in> set (elements L) \<Longrightarrow> (\<And>x. x \<in> set xs \<Longrightarrow> leq L x w) \<Longrightarrow>
   leq L z w"
  unfolding join_def by (drule find_SomeD) simp

lemma join_exists_if:
  assumes "z \<in> set (elements L)" and "\<And>x. x \<in> set xs \<Longrightarrow> leq L x z"
    and "\<And>w. w \<in> set (elements L) \<Longrightarrow> (\<forall>x\<in>set xs. leq L x w) \<Longrightarrow> leq L z w"
  shows "\<exists>y. join L xs = Some y"
  unfolding join_def using assms by (intro find_exists [of z]) auto

lemma joinI:
  assumes "is_poset L" and "z \<in> set (elements L)" and "\<And>x. x \<in> set xs \<Longrightarrow> leq L x z"
    and "\<And>w. w \<in> set (elements L) \<Longrightarrow> (\<forall>x\<in>set xs. leq L x w) \<Longrightarrow> leq L z w"
  shows "join L xs = Some z"
proof -
  from join_exists_if [OF assms(2-4)] obtain y where y: "join L xs = Some y"
    by blast
  have "leq L y z"
    using y assms(2,3) by (rule join_least)
  moreover have "leq L z y"
    using assms(4) [of y] join_elem [OF y] join_upper [OF y] by blast
  ultimately have "y = z"
    using assms(1,2) join_elem [OF y] by (blast intro: poset_antisym)
  with y show ?thesis by simp
qed

lemma join_cong_set: "set xs = set ys \<Longrightarrow> join L xs = join L ys"
  by (simp add: join_def)

lemma exists_lower_bound:
  assumes "is_lattice L"
  shows "set ys \<subseteq> set (elements L) \<Longrightarrow> \<exists>b\<in>set (elements L). \<forall>y\<in>set ys. leq L b y"
proof (induction ys)
  case Nil
  from assms have "elements L \<noteq> []" by (simp add: is_lattice_def)
  then obtain e where "e \<in> set (elements L)" by (cases "elements L") auto
  then show ?case by auto
next
  case (Cons y ys)
  then obtain b where b: "b \<in> set (elements L)" "\<forall>y\<in>set ys. leq L b y"
    by auto
  from Cons.prems have y: "y \<in> set (elements L)" by simp
  from assms y b(1) obtain m where m: "meet L [y, b] = Some m"
    unfolding is_lattice_def by blast
  then have m': "join (dual L) [y, b] = Some m"
    by (simp add: join_dual)
  have mE: "m \<in> set (elements L)"
    using join_elem [OF m'] by simp
  have my: "leq L m y" and mb: "leq L m b"
    using join_upper [OF m', of y] join_upper [OF m', of b] by simp_all
  have "leq L m x" if "x \<in> set ys" for x
  proof -
    from that Cons.prems have "x \<in> set (elements L)" by auto
    moreover from that b(2) have "leq L b x" by blast
    ultimately show ?thesis
      using mb mE b(1) lattice_poset [OF assms] by (blast intro: poset_trans)
  qed
  with my mE show ?case by auto
qed

lemma bottom_exists:
  assumes "is_lattice L"
  shows "\<exists>b. bottom L = Some b"
proof -
  from exists_lower_bound [OF assms, of "elements L"]
  obtain b where "b \<in> set (elements L)" "\<forall>y\<in>set (elements L). leq L b y"
    by auto
  then show ?thesis
    unfolding bottom_def by (intro find_exists [of b]) auto
qed

lemma bottom_elem: "bottom L = Some b \<Longrightarrow> b \<in> set (elements L)"
  unfolding bottom_def by (drule find_SomeD) simp

lemma bottom_least: "bottom L = Some b \<Longrightarrow> x \<in> set (elements L) \<Longrightarrow> leq L b x"
  unfolding bottom_def by (drule find_SomeD) simp

lemma top_exists: "is_lattice L \<Longrightarrow> \<exists>t. top_L L = Some t"
  using bottom_exists [of "dual L"] by (simp add: is_lattice_dual bottom_dual)

lemma top_elem: "top_L L = Some t \<Longrightarrow> t \<in> set (elements L)"
  using bottom_elem [of "dual L" t] by (simp add: bottom_dual)

lemma top_greatest:
  assumes "top_L L = Some t" and "x \<in> set (elements L)"
  shows "leq L x t"
proof -
  have "leq (dual L) t x"
    by (rule bottom_least) (simp_all add: bottom_dual assms)
  then show ?thesis by simp
qed

lemma join_exists:
  assumes "is_lattice L"
  shows "set xs \<subseteq> set (elements L) \<Longrightarrow> \<exists>z. join L xs = Some z"
proof (induction xs)
  case Nil
  from bottom_exists [OF assms] obtain b where b: "bottom L = Some b" by blast
  show ?case
    by (rule join_exists_if [of b]) (simp_all add: bottom_elem [OF b] bottom_least [OF b])
next
  case (Cons x xs)
  then obtain z where z: "join L xs = Some z" by auto
  from Cons.prems have x: "x \<in> set (elements L)" and xs: "set xs \<subseteq> set (elements L)"
    by simp_all
  note P = lattice_poset [OF assms]
  from assms x join_elem [OF z] obtain j where j: "join L [x, z] = Some j"
    unfolding is_lattice_def by blast
  have jE: "j \<in> set (elements L)" by (rule join_elem [OF j])
  have zE: "z \<in> set (elements L)" by (rule join_elem [OF z])
  show ?case
  proof (rule join_exists_if [of j])
    show "j \<in> set (elements L)" by (rule jE)
  next
    fix y assume "y \<in> set (x # xs)"
    then consider "y = x" | "y \<in> set xs" by auto
    then show "leq L y j"
    proof cases
      case 1
      then show ?thesis using join_upper [OF j, of x] by simp
    next
      case 2
      then have "leq L y z" by (rule join_upper [OF z])
      moreover have "leq L z j" using join_upper [OF j, of z] by simp
      moreover have "y \<in> set (elements L)" using 2 xs by auto
      ultimately show ?thesis using P zE jE by (blast intro: poset_trans)
    qed
  next
    fix w assume w: "w \<in> set (elements L)" and ub: "\<forall>y\<in>set (x # xs). leq L y w"
    have "leq L z w" by (rule join_least [OF z w]) (use ub in simp)
    moreover have "leq L x w" using ub by simp
    ultimately show "leq L j w" by (intro join_least [OF j w]) auto
  qed
qed

lemma meet_exists: "is_lattice L \<Longrightarrow> set xs \<subseteq> set (elements L) \<Longrightarrow> \<exists>z. meet L xs = Some z"
  using join_exists [of "dual L" xs] by (simp add: is_lattice_dual join_dual)

lemma meet_elem: "meet L xs = Some z \<Longrightarrow> z \<in> set (elements L)"
  using join_elem [of "dual L" xs z] by (simp add: join_dual)

lemma meet_lower: "meet L xs = Some z \<Longrightarrow> x \<in> set xs \<Longrightarrow> leq L z x"
  using join_upper [of "dual L" xs z x] by (simp add: join_dual)

lemma meet_greatest:
  "meet L xs = Some z \<Longrightarrow> w \<in> set (elements L) \<Longrightarrow> (\<And>x. x \<in> set xs \<Longrightarrow> leq L w x) \<Longrightarrow>
   leq L w z"
  using join_least [of "dual L" xs z w] by (simp add: join_dual)

lemma meetI:
  assumes "is_poset L" and "z \<in> set (elements L)" and "\<And>x. x \<in> set xs \<Longrightarrow> leq L z x"
    and "\<And>w. w \<in> set (elements L) \<Longrightarrow> (\<forall>x\<in>set xs. leq L w x) \<Longrightarrow> leq L w z"
  shows "meet L xs = Some z"
  using joinI [of "dual L" z xs] assms by (simp add: is_poset_dual join_dual)

section \<open>Bricks and labels of intervals\<close>

text \<open>
  Claim C6. For elements \<open>U\<close> and \<open>T\<close>, \<open>bricks((U,T))\<close> with the check enabled raises
  \<open>NotAnInterval\<close> exactly when \<open>U \<le> T\<close> fails; when \<open>U \<le> T\<close> holds its result is
  that of intersecting \<open>bricks_in_tors(T)\<close> with \<open>bricks_in_torf(U)\<close>, a failure of
  either being passed on.
\<close>

theorem bricks_checked:
  assumes "U \<in> set (elements L)" and "T \<in> set (elements L)"
  shows "(bricks L (U, T) True = Inl NotAnInterval \<longleftrightarrow> \<not> is_lequal L U T) \<and>
         (is_lequal L U T \<longrightarrow>
            bricks L (U, T) True =
              bindE (bricks_in_tors L T) (\<lambda>a. bindE (bricks_in_torf L U) (\<lambda>b.
                Inr [j \<leftarrow> a. j \<in> set b]))) \<and>
         (is_lequal L U T \<longrightarrow>
            (\<forall>a b. bricks_in_tors L T = Inr a \<and> bricks_in_torf L U = Inr b \<longrightarrow>
               (\<exists>r. bricks L (U, T) True = Inr r \<and> set r = set a \<inter> set b)))"
proof (intro conjI impI allI)
  show "bricks L (U, T) True = Inl NotAnInterval \<longleftrightarrow> \<not> is_lequal L U T"
  proof
    assume e: "bricks L (U, T) True = Inl NotAnInterval"
    show "\<not> is_lequal L U T"
    proof
      assume le: "is_lequal L U T"
      with assms e have
        "bindE (bricks_in_torf L U) (\<lambda>b. Inr [j \<leftarrow> [j \<leftarrow> all_bricks L. is_lequal L j T]. j \<in> set b])
           = Inl NotAnInterval"
        by (simp add: bricks_def bricks_in_tors_elem)
      then have "bricks_in_torf L U = Inl NotAnInterval"
        by (cases "bricks_in_torf L U") auto
      then show False by (auto dest: bricks_in_torf_error)
    qed
  next
    assume "\<not> is_lequal L U T"
    with assms show "bricks L (U, T) True = Inl NotAnInterval"
      by (simp add: bricks_def)
  qed
next
  assume "is_lequal L U T"
  with assms show "bricks L (U, T) True =
      bindE (bricks_in_tors L T) (\<lambda>a. bindE (bricks_in_torf L U) (\<lambda>b. Inr [j \<leftarrow> a. j \<in> set b]))"
    by (simp add: bricks_def)
next
  fix a b
  assume "is_lequal L U T" and "bricks_in_tors L T = Inr a \<and> bricks_in_torf L U = Inr b"
  with assms have "bricks L (U, T) True = Inr [j \<leftarrow> a. j \<in> set b]"
    by (simp add: bricks_def)
  then show "\<exists>r. bricks L (U, T) True = Inr r \<and> set r = set a \<inter> set b"
    by auto
qed

theorem bricks_checked_witness:
  "1 \<in> set (elements chain4) \<and> 4 \<in> set (elements chain4) \<and> is_lequal chain4 1 4 \<and>
   bricks_in_tors chain4 4 = Inr [2, 4] \<and> bricks_in_torf chain4 1 = Inr [2, 4, 8] \<and>
   (\<exists>r. bricks chain4 (1, 4) True = Inr r \<and> set r = set [2, 4] \<inter> set [2, 4, 8])"
proof -
  have a: "1 \<in> set (elements chain4)" and b: "4 \<in> set (elements chain4)"
    by (simp_all add: chain4_def)
  have c: "is_lequal chain4 1 4"
    by (simp add: chain4_def is_lequal_def)
  have d: "bricks_in_tors chain4 4 = Inr [2, 4]"
    by code_simp
  have e: "bricks_in_torf chain4 1 = Inr [2, 4, 8]"
    by code_simp
  from bricks_checked [OF a b] c d e
  have "\<exists>r. bricks chain4 (1, 4) True = Inr r \<and> set r = set [2, 4] \<inter> set [2, 4, 8]"
    by blast
  with a b c d e show ?thesis by blast
qed

text \<open>
  Claim C10. For elements \<open>U\<close> and \<open>T\<close> with \<open>U \<le> T\<close> failing, \<open>label((U,T))\<close> raises
  \<open>NotAnInterval\<close> whatever its own \<open>check\<close> flag is, in particular with
  \<open>check = False\<close>: the nested call of \<open>bricks\<close> always checks the interval.
\<close>

theorem label_unchecked_not_interval:
  assumes "U \<in> set (elements L)" and "T \<in> set (elements L)" and "\<not> is_lequal L U T"
  shows "label L (U, T) check = Inl NotAnInterval"
  using assms by (simp add: label_def bricks_def)

theorem label_unchecked_not_interval_witness:
  "2 \<in> set (elements diamond) \<and> 3 \<in> set (elements diamond) \<and> \<not> is_lequal diamond 2 3 \<and>
   label diamond (2, 3) False = Inl NotAnInterval"
proof -
  have a: "2 \<in> set (elements diamond)" and b: "3 \<in> set (elements diamond)"
    by (simp_all add: diamond_def)
  have c: "\<not> is_lequal diamond 2 3"
    by (simp add: diamond_def is_lequal_def)
  from label_unchecked_not_interval [OF a b c]
  have "label diamond (2, 3) False = Inl NotAnInterval" .
  with a b c show ?thesis by simp
qed

text \<open>
  Claim C2 requires \<open>label(itv)\<close> with the check enabled to raise
  \<open>NotACoveringRelation\<close> whenever the heart of \<open>itv\<close> does not have exactly one brick.
  On the chain the pair \<open>(2,2)\<close> is not a covering relation and its heart is empty,
  yet the check does not fire there: the guard looks for more than one brick only, and
  \<open>list(bricks_in)[0]\<close> then fails with an \<open>IndexError\<close>.
\<close>

theorem label_zero_bricks_counterexample:
  "bricks chain4 (2, 2) True = Inr [] \<and> label chain4 (2, 2) True = Inl IndexError \<and>
   label chain4 (2, 2) True \<noteq> Inl NotACoveringRelation"
proof -
  have a: "bricks chain4 (2, 2) True = Inr []"
    by code_simp
  then have "label chain4 (2, 2) True = Inl IndexError"
    by (simp add: label_def chain4_def small_int_order_def)
  with a show ?thesis by simp
qed

text \<open>
  With the check disabled and several bricks in the heart, \<open>label\<close> returns the brick
  that the runtime lists first: for the interval from the bottom to the top of the
  chain this is \<open>8\<close>.
\<close>

lemma label_unchecked_several_bricks:
  "bricks chain4 (1, 8) True = Inr [2, 4, 8] \<and> label chain4 (1, 8) False = Inr 8"
proof -
  have "bricks chain4 (1, 8) True = Inr [2, 4, 8]" by code_simp
  moreover have "label chain4 (1, 8) False = Inr 8" by code_simp
  ultimately show ?thesis by simp
qed

section \<open>The extended kappa map\<close>

text \<open>
  Claim C5. \<open>extended_kappa(x)\<close> is absent when \<open>x\<close> has no canonical join
  representation; otherwise it is absent when the kappa of some canonical joinand is
  absent, and when all of them are defined it is their meet, absent if the meet fails.
  The method \<open>kappa\<close> returns this value for every element and raises nothing.
\<close>

theorem extended_kappa_absent:
  "(canonical_joinands L x = None \<longrightarrow> extended_kappa L x = None) \<and>
   (\<forall>js. canonical_joinands L x = Some js \<longrightarrow>
      ((\<exists>j\<in>set js. kappa_of L j = None) \<longrightarrow> extended_kappa L x = None) \<and>
      (\<forall>ks. map (kappa_of L) js = map Some ks \<longrightarrow> extended_kappa L x = meet L ks)) \<and>
   (x \<in> set (elements L) \<longrightarrow> kappa L x = Inr (extended_kappa L x))"
proof (intro conjI impI allI)
  show "extended_kappa L x = None" if "canonical_joinands L x = None"
    using that by (simp add: extended_kappa_def)
next
  fix js
  assume js: "canonical_joinands L x = Some js" and "\<exists>j\<in>set js. kappa_of L j = None"
  then have "None \<in> set (map (kappa_of L) js)"
    by (auto simp: image_iff) metis
  then have "those (map (kappa_of L) js) = None"
    by (simp only: those_None_iff)
  with js show "extended_kappa L x = None"
    by (simp add: extended_kappa_def meet_vals_def)
next
  fix js ks
  assume "canonical_joinands L x = Some js" and "map (kappa_of L) js = map Some ks"
  then show "extended_kappa L x = meet L ks"
    by (simp add: extended_kappa_def meet_vals_def split: option.splits)
next
  assume "x \<in> set (elements L)"
  then show "kappa L x = Inr (extended_kappa L x)"
    by (simp add: kappa_def)
qed

theorem extended_kappa_absent_witness:
  "canonical_joinands m3 30 = None \<and> extended_kappa m3 30 = None \<and>
   canonical_joinands m3 2 = Some [2] \<and> kappa_of m3 2 = None \<and> extended_kappa m3 2 = None \<and>
   canonical_joinands diamond 6 = Some [2, 3] \<and> map (kappa_of diamond) [2, 3] = map Some [3, 2] \<and>
   extended_kappa diamond 6 = meet diamond [3, 2] \<and>
   6 \<in> set (elements diamond) \<and> kappa diamond 6 = Inr (extended_kappa diamond 6)"
proof -
  have a: "canonical_joinands m3 30 = None" by code_simp
  have b: "canonical_joinands m3 2 = Some [2]" by code_simp
  have c: "kappa_of m3 2 = None" by code_simp
  have d: "canonical_joinands diamond 6 = Some [2, 3]" by code_simp
  have e: "map (kappa_of diamond) [2, 3] = map Some [3, 2]" by code_simp
  have f: "6 \<in> set (elements diamond)" by (simp add: diamond_def)
  from extended_kappa_absent [of m3 30] a have a': "extended_kappa m3 30 = None" by blast
  from extended_kappa_absent [of m3 2] b c have b': "extended_kappa m3 2 = None" by simp
  from extended_kappa_absent [of diamond 6] d e
  have d': "extended_kappa diamond 6 = meet diamond [3, 2]" by blast
  from extended_kappa_absent [of diamond 6] f
  have f': "kappa diamond 6 = Inr (extended_kappa diamond 6)" by blast
  from a a' b c b' d e d' f f' show ?thesis by blast
qed

section \<open>Covers\<close>

lemma lt_trans:
  assumes "is_poset L" and "x \<in> set (elements L)" and "y \<in> set (elements L)"
    and "z \<in> set (elements L)" and "lt L x y" and "lt L y z"
  shows "lt L x z"
proof -
  from assms have xz: "leq L x z"
    unfolding lt_def by (blast intro: poset_trans)
  have "x \<noteq> z"
  proof
    assume "x = z"
    with assms have "leq L y x" "leq L x y" by (simp_all add: lt_def)
    with assms(1-3) have "x = y" by (blast intro: poset_antisym)
    with assms(5) show False by (simp add: lt_def)
  qed
  with xz show ?thesis by (simp add: lt_def)
qed

lemma upper_covers_iff:
  "c \<in> set (upper_covers L x) \<longleftrightarrow>
     c \<in> set (elements L) \<and> lt L x c \<and> (\<forall>z\<in>set (elements L). \<not> (lt L x z \<and> lt L z c))"
  by (auto simp: upper_covers_def)

lemma lower_covers_iff:
  "c \<in> set (lower_covers L x) \<longleftrightarrow>
     c \<in> set (elements L) \<and> lt L c x \<and> (\<forall>z\<in>set (elements L). \<not> (lt L c z \<and> lt L z x))"
  by (auto simp: lower_covers_def)

lemma distinct_upper_covers: "is_poset L \<Longrightarrow> distinct (upper_covers L x)"
  by (simp add: upper_covers_def poset_distinct)

lemma distinct_lower_covers: "is_poset L \<Longrightarrow> distinct (lower_covers L x)"
  by (simp add: lower_covers_def poset_distinct)

lemma exists_upper_cover:
  assumes P: "is_poset L" and x: "x \<in> set (elements L)"
  shows "t \<in> set (elements L) \<Longrightarrow> lt L x t \<Longrightarrow> \<exists>c\<in>set (upper_covers L x). leq L c t"
proof (induction "card {z \<in> set (elements L). lt L x z \<and> lt L z t}" arbitrary: t rule: less_induct)
  case less
  show ?case
  proof (cases "\<exists>z\<in>set (elements L). lt L x z \<and> lt L z t")
    case False
    with less.prems have "t \<in> set (upper_covers L x)"
      by (simp add: upper_covers_iff)
    moreover have "leq L t t"
      using P less.prems(1) by (rule poset_refl)
    ultimately show ?thesis by blast
  next
    case True
    then obtain z where z: "z \<in> set (elements L)" "lt L x z" "lt L z t"
      by blast
    have "{w \<in> set (elements L). lt L x w \<and> lt L w z} \<subseteq> {w \<in> set (elements L). lt L x w \<and> lt L w t}"
      using P z less.prems(1) by (auto intro: lt_trans)
    moreover have "z \<in> {w \<in> set (elements L). lt L x w \<and> lt L w t}"
      using z by simp
    moreover have "z \<notin> {w \<in> set (elements L). lt L x w \<and> lt L w z}"
      by (simp add: lt_def)
    ultimately have "{w \<in> set (elements L). lt L x w \<and> lt L w z} \<subset> {w \<in> set (elements L). lt L x w \<and> lt L w t}"
      by blast
    then have "card {w \<in> set (elements L). lt L x w \<and> lt L w z} < card {w \<in> set (elements L). lt L x w \<and> lt L w t}"
      by (intro psubset_card_mono) simp_all
    from less.hyps [OF this z(1) z(2)] obtain c where c: "c \<in> set (upper_covers L x)" "leq L c z"
      by blast
    from c(1) have cE: "c \<in> set (elements L)"
      by (simp add: upper_covers_iff)
    from z(3) have "leq L z t" by (simp add: lt_def)
    with c(2) have "leq L c t"
      using P cE z(1) less.prems(1) by (blast intro: poset_trans)
    with c(1) show ?thesis by blast
  qed
qed

lemma exists_lower_cover:
  assumes "is_poset L" and "t \<in> set (elements L)" and "x \<in> set (elements L)" and "lt L x t"
  shows "\<exists>c\<in>set (lower_covers L t). leq L x c"
proof -
  have "\<exists>c\<in>set (upper_covers (dual L) t). leq (dual L) c x"
    by (rule exists_upper_cover) (simp_all add: is_poset_dual assms)
  then show ?thesis
    by (simp add: upper_covers_dual)
qed

lemma singleton_list: "distinct xs \<Longrightarrow> set xs = {a} \<Longrightarrow> xs = [a]"
proof (cases xs)
  case Nil
  assume "set xs = {a}"
  with Nil show ?thesis by simp
next
  case (Cons x ys)
  assume d: "distinct xs" and s: "set xs = {a}"
  from s Cons have "x = a" and "set ys \<subseteq> {a}" by auto
  moreover from d Cons have "x \<notin> set ys" by simp
  ultimately have "ys = []" by (cases ys) auto
  with \<open>x = a\<close> Cons show ?thesis by simp
qed

lemma lower_covers_of_atom:
  assumes P: "is_poset L" and z: "bottom L = Some z" and s: "s \<in> set (upper_covers L z)"
  shows "lower_covers L s = [z]"
proof -
  from s have sE: "s \<in> set (elements L)" and zs: "lt L z s"
    and nb: "\<forall>w\<in>set (elements L). \<not> (lt L z w \<and> lt L w s)"
    by (simp_all add: upper_covers_iff)
  have zE: "z \<in> set (elements L)" by (rule bottom_elem [OF z])
  have "set (lower_covers L s) = {z}"
  proof (intro equalityI subsetI)
    fix c assume "c \<in> set (lower_covers L s)"
    then have cE: "c \<in> set (elements L)" and cs: "lt L c s"
      by (simp_all add: lower_covers_iff)
    have "leq L z c" by (rule bottom_least [OF z cE])
    with nb cE cs have "z = c" by (auto simp: lt_def)
    then show "c \<in> {z}" by simp
  next
    fix c assume "c \<in> {z}"
    then have "c = z" by simp
    moreover have "z \<in> set (lower_covers L s)"
      using zE zs nb by (simp add: lower_covers_iff)
    ultimately show "c \<in> set (lower_covers L s)" by simp
  qed
  with distinct_lower_covers [OF P] show ?thesis
    by (rule singleton_list)
qed

lemma all_bricks_iff:
  "j \<in> set (all_bricks L) \<longleftrightarrow> j \<in> set (elements L) \<and> length (lower_covers L j) = 1"
  by (auto simp: all_bricks_def join_irreducibles_def)

section \<open>Simple torsion classes\<close>

text \<open>
  Claim C9. In a finite lattice \<open>simples()\<close> returns exactly the upper covers of the
  bottom element, and each of them is join-irreducible, that is, a member of
  \<open>all_bricks()\<close>. Semidistributivity is not needed.
\<close>

theorem simples_are_bricks:
  assumes "is_lattice L"
  shows "\<exists>z S. bottom L = Some z \<and> simples L = Inr S \<and> set S = set (upper_covers L z) \<and>
           set S \<subseteq> set (all_bricks L)"
proof -
  from bottom_exists [OF assms] obtain z where z: "bottom L = Some z" by blast
  note P = lattice_poset [OF assms]
  have S: "simples L = Inr (remdups (upper_covers L z))"
    using z by (simp add: simples_def zero_def)
  have "set (upper_covers L z) \<subseteq> set (all_bricks L)"
  proof
    fix s assume s: "s \<in> set (upper_covers L z)"
    then have "s \<in> set (elements L)" by (simp add: upper_covers_iff)
    moreover have "lower_covers L s = [z]" by (rule lower_covers_of_atom [OF P z s])
    ultimately show "s \<in> set (all_bricks L)" by (simp add: all_bricks_iff)
  qed
  with z S show ?thesis by simp
qed

theorem simples_are_bricks_witness:
  "is_lattice diamond \<and>
   (\<exists>z S. bottom diamond = Some z \<and> simples diamond = Inr S \<and>
      set S = set (upper_covers diamond z) \<and> set S \<subseteq> set (all_bricks diamond)) \<and>
   simples diamond = Inr [2, 3]"
proof -
  have a: "is_lattice diamond" by code_simp
  have b: "simples diamond = Inr [2, 3]" by code_simp
  from simples_are_bricks [OF a] a b show ?thesis by blast
qed

section \<open>Ext-projectives\<close>

lemma upper_covers_subset: "set (upper_covers L x) \<subseteq> set (elements L)"
  by (auto simp: upper_covers_iff)

lemma lower_covers_subset: "set (lower_covers L x) \<subseteq> set (elements L)"
  by (auto simp: lower_covers_iff)

lemma plus_L_total:
  assumes "is_lattice L" and "M \<in> set (elements L)"
  shows "\<exists>p. plus_L L M = Inr p \<and> p \<in> set (elements L)"
proof (cases "Some M = whole L")
  case True
  with assms(2) show ?thesis by (simp add: plus_L_def)
next
  case False
  from join_exists [OF assms(1) upper_covers_subset] obtain p
    where p: "join L (upper_covers L M) = Some p" by blast
  with False assms(2) have "plus_L L M = Inr p"
    by (simp add: plus_L_def join_res_def)
  with join_elem [OF p] show ?thesis by blast
qed

lemma has_tau_rigid_summand_total:
  assumes "is_lattice L" and "M \<in> set (elements L)"
  shows "\<exists>p. plus_L L M = Inr p \<and>
           has_tau_rigid_summand L M False =
             Inr [T \<leftarrow> elements L. is_lequal L M T \<and> is_lequal L T p]"
proof -
  from plus_L_total [OF assms] obtain p where "plus_L L M = Inr p" by blast
  with assms(2) show ?thesis
    by (simp add: has_tau_rigid_summand_def)
qed

lemma projectives_total:
  assumes "is_lattice L" and "T \<in> set (elements L)"
  shows "\<exists>q. projectives L T = Inr (filter q (all_bricks L))"
proof -
  have "\<exists>S. has_tau_rigid_summand L M False = Inr S" if "M \<in> set (all_bricks L)" for M
  proof -
    from that have "M \<in> set (elements L)" by (simp add: all_bricks_iff)
    from has_tau_rigid_summand_total [OF assms(1) this] show ?thesis by blast
  qed
  then have "\<forall>M\<in>set (all_bricks L). \<exists>S. has_tau_rigid_summand L M False = Inr S"
    by blast
  then have "\<exists>f. \<forall>M\<in>set (all_bricks L). has_tau_rigid_summand L M False = Inr (f M)"
    by (rule bchoice)
  then obtain f where f: "\<forall>M\<in>set (all_bricks L). has_tau_rigid_summand L M False = Inr (f M)"
    by blast
  have "filterE (\<lambda>M. bindE (has_tau_rigid_summand L M False) (\<lambda>S. Inr (T \<in> set S))) (all_bricks L)
          = Inr (filter (\<lambda>M. T \<in> set (f M)) (all_bricks L))"
    by (rule filterE_Inr) (simp add: f)
  with assms(2) show ?thesis
    by (auto simp: projectives_def indec_tau_rigid_def)
qed

lemma brick_not_below_bottom:
  assumes P: "is_poset L" and z: "bottom L = Some z" and M: "M \<in> set (all_bricks L)"
  shows "\<not> leq L M z"
proof
  assume le: "leq L M z"
  from M have ME: "M \<in> set (elements L)" and len: "length (lower_covers L M) = 1"
    by (simp_all add: all_bricks_iff)
  from len obtain l where "l \<in> set (lower_covers L M)"
    by (cases "lower_covers L M") auto
  then have lE: "l \<in> set (elements L)" and lM: "lt L l M"
    by (simp_all add: lower_covers_iff)
  have zE: "z \<in> set (elements L)" by (rule bottom_elem [OF z])
  have "M = z"
    using P ME zE le bottom_least [OF z ME] by (rule poset_antisym)
  with lM have "leq L l z" and "l \<noteq> z" by (simp_all add: lt_def)
  moreover have "leq L z l" by (rule bottom_least [OF z lE])
  ultimately show False
    using P lE zE by (blast intro: poset_antisym)
qed

lemma number_of_projs_interval:
  assumes "U \<in> set (elements L)" and "T \<in> set (elements L)"
    and "projectives L T = Inr (filter q (all_bricks L))"
  shows "number_of_projs L (Tuple [U, T]) =
           Inr (card {M \<in> set (filter q (all_bricks L)). \<not> is_lequal L M U})"
proof -
  have d: "distinct (filter q (all_bricks L))"
    by (simp add: all_bricks_def)
  have "length [M \<leftarrow> filter q (all_bricks L). \<not> is_lequal L M U]
          = card ({M. \<not> is_lequal L M U} \<inter> set (filter q (all_bricks L)))"
    by (rule distinct_length_filter [OF d])
  also have "{M. \<not> is_lequal L M U} \<inter> set (filter q (all_bricks L))
               = {M \<in> set (filter q (all_bricks L)). \<not> is_lequal L M U}"
    by blast
  finally show ?thesis
    using assms by (simp add: number_of_projs_def)
qed

text \<open>
  An element that is not a tuple is treated as the interval from the bottom element to
  it, and the result is the number of its Ext-projectives.
\<close>

lemma number_of_projs_atom:
  assumes "is_lattice L" and "Atom n \<in> set (elements L)"
  shows "\<exists>z ps. zero L = Some z \<and> projectives L (Atom n) = Inr ps \<and>
           number_of_projs L (Atom n) = number_of_projs L (Tuple [z, Atom n]) \<and>
           number_of_projs L (Atom n) = Inr (card (set ps))"
proof -
  from bottom_exists [OF assms(1)] obtain z where z: "bottom L = Some z" by blast
  have zE: "z \<in> set (elements L)" by (rule bottom_elem [OF z])
  from projectives_total [OF assms] obtain q
    where q: "projectives L (Atom n) = Inr (filter q (all_bricks L))" by blast
  have eq: "number_of_projs L (Atom n) = number_of_projs L (Tuple [z, Atom n])"
    using z by (simp add: number_of_projs_def zero_def)
  have "{M \<in> set (filter q (all_bricks L)). \<not> is_lequal L M z} = set (filter q (all_bricks L))"
    using brick_not_below_bottom [OF lattice_poset [OF assms(1)] z]
    by (auto simp: is_lequal_def)
  with number_of_projs_interval [OF zE assms(2) q]
  have "number_of_projs L (Tuple [z, Atom n]) = Inr (card (set (filter q (all_bricks L))))"
    by simp
  with z q eq show ?thesis by (simp add: zero_def)
qed

text \<open>
  Claim C8 requires \<open>number_of_projs\<close> to treat an element \<open>T\<close> as the interval from
  the bottom element to \<open>T\<close>, so that for the top element the result is the number of
  members of \<open>projectives(top)\<close>. In the lattice of the pairs below \<open>(1,1)\<close> the top
  element \<open>(1,1)\<close> has two Ext-projectives, and the interval from \<open>(0,0)\<close> to \<open>(1,1)\<close>
  gives 2; but the element \<open>(1,1)\<close> is itself a tuple, is unpacked into \<open>U = 1\<close> and
  \<open>T = 1\<close>, and the call fails because \<open>1\<close> is not an element.
\<close>

theorem number_of_projs_tuple_element:
  "is_lattice b2 \<and> is_semidistributive b2 \<and>
   zero b2 = Some (Tuple [Atom 0, Atom 0]) \<and> whole b2 = Some (Tuple [Atom 1, Atom 1]) \<and>
   projectives b2 (Tuple [Atom 1, Atom 1]) =
     Inr [Tuple [Atom 0, Atom 1], Tuple [Atom 1, Atom 0]] \<and>
   number_of_projs b2 (Tuple [Tuple [Atom 0, Atom 0], Tuple [Atom 1, Atom 1]]) = Inr 2 \<and>
   number_of_projs b2 (Tuple [Atom 1, Atom 1]) = Inl NotAnElement"
proof -
  have "is_lattice b2" by code_simp
  moreover have "is_semidistributive b2" by code_simp
  moreover have "zero b2 = Some (Tuple [Atom 0, Atom 0])" by code_simp
  moreover have "whole b2 = Some (Tuple [Atom 1, Atom 1])" by code_simp
  moreover have "projectives b2 (Tuple [Atom 1, Atom 1]) =
      Inr [Tuple [Atom 0, Atom 1], Tuple [Atom 1, Atom 0]]" by code_simp
  moreover have "number_of_projs b2 (Tuple [Tuple [Atom 0, Atom 0], Tuple [Atom 1, Atom 1]]) = Inr 2"
    by code_simp
  moreover have "number_of_projs b2 (Tuple [Atom 1, Atom 1]) = Inl NotAnElement"
    by code_simp
  ultimately show ?thesis by blast
qed

theorem number_of_projs_tuple_element_witness:
  "is_lattice b2 \<and> is_semidistributive b2 \<and>
   Tuple [Atom 1, Atom 1] \<in> set (elements b2) \<and>
   number_of_projs b2 (Tuple [Atom 1, Atom 1]) = Inl NotAnElement"
proof -
  have "Tuple [Atom 1, Atom 1] \<in> set (elements b2)" by (simp add: b2_def)
  with number_of_projs_tuple_element show ?thesis by blast
qed

section \<open>The chain with four elements\<close>

text \<open>
  Claim C3, as stated, fails on the chain \<open>1 < 2 < 4 < 8\<close>: its top element has
  exactly one lower cover, so it is a brick as well, and the interval from the bottom
  to the top is not wide, the only upper cover of the bottom being \<open>2\<close>.
\<close>

theorem chain4_counterexample:
  "all_bricks chain4 = [2, 4, 8] \<and> is_wide_itv chain4 (1, 8) True = Inr False"
proof -
  have "all_bricks chain4 = [2, 4, 8]" by code_simp
  moreover have "is_wide_itv chain4 (1, 8) True = Inr False" by code_simp
  ultimately show ?thesis by simp
qed

text \<open>
  Claim C3, amended. On the chain \<open>0 < a < b < 1\<close> (here \<open>1 < 2 < 4 < 8\<close>), a finite
  semidistributive lattice: \<open>all_bricks() = {a, b, 1}\<close>, \<open>simples() = {a}\<close>,
  \<open>label((0,a)) = a\<close>, \<open>label((a,b)) = b\<close>, \<open>bricks((0,b)) = {a, b}\<close>, and
  \<open>is_wide_itv((0,1))\<close> is \<open>False\<close>.
\<close>

theorem chain4_scenario:
  "is_lattice chain4 \<and> is_semidistributive chain4 \<and>
   set (all_bricks chain4) = {2, 4, 8} \<and>
   simples chain4 = Inr [2] \<and>
   label chain4 (1, 2) True = Inr 2 \<and>
   label chain4 (2, 4) True = Inr 4 \<and>
   bricks chain4 (1, 4) True = Inr [2, 4] \<and>
   is_wide_itv chain4 (1, 8) True = Inr False"
proof -
  have "is_lattice chain4" by code_simp
  moreover have "is_semidistributive chain4" by code_simp
  moreover have "all_bricks chain4 = [2, 4, 8]" by code_simp
  then have "set (all_bricks chain4) = {2, 4, 8}" by simp
  moreover have "simples chain4 = Inr [2]" by code_simp
  moreover have "label chain4 (1, 2) True = Inr 2" by code_simp
  moreover have "label chain4 (2, 4) True = Inr 4" by code_simp
  moreover have "bricks chain4 (1, 4) True = Inr [2, 4]" by code_simp
  moreover have "is_wide_itv chain4 (1, 8) True = Inr False" by code_simp
  ultimately show ?thesis by blast
qed

theorem chain4_scenario_witness:
  "is_lattice chain4 \<and> is_semidistributive chain4 \<and>
   all_bricks chain4 = [2, 4, 8] \<and> is_wide_itv chain4 (1, 8) True = Inr False"
proof -
  have "all_bricks chain4 = [2, 4, 8]" by code_simp
  with chain4_scenario show ?thesis by simp
qed

section \<open>The kappa map\<close>

lemma filter_singleton_iff:
  assumes "distinct xs"
  shows "filter P xs = [m] \<longleftrightarrow> m \<in> set xs \<and> P m \<and> (\<forall>y\<in>set xs. P y \<longrightarrow> y = m)"
proof
  assume e: "filter P xs = [m]"
  then have "set (filter P xs) = {m}" by simp
  then show "m \<in> set xs \<and> P m \<and> (\<forall>y\<in>set xs. P y \<longrightarrow> y = m)" by auto
next
  assume a: "m \<in> set xs \<and> P m \<and> (\<forall>y\<in>set xs. P y \<longrightarrow> y = m)"
  then have "set (filter P xs) = {m}" by auto
  moreover from assms have "distinct (filter P xs)" by simp
  ultimately show "filter P xs = [m]" by (rule singleton_list [rotated])
qed

lemma kappa_of_eq: "kappa_of L j = hasse_kappa L j"
  by (simp add: kappa_of_def split: option.splits)

lemma set_kappa_candidates: "x \<in> set (kappa_candidates L j l) \<longleftrightarrow> skips L j l x"
  by (simp add: kappa_candidates_def skips_def)

lemma maximal_in_candidates:
  "maximal_in L (kappa_candidates L j l) m \<longleftrightarrow> maximal_skipping L j l m"
  by (auto simp: maximal_in_def maximal_skipping_def set_kappa_candidates skips_def)

lemma hasse_kappa_Some_iff:
  assumes "is_poset L" and "lower_covers L j = [l]"
  shows "hasse_kappa L j = Some m \<longleftrightarrow> unique_maximal_skipping L j l m"
proof -
  let ?C = "kappa_candidates L j l"
  have d: "distinct ?C"
    using assms(1) by (simp add: kappa_candidates_def poset_distinct)
  have "hasse_kappa L j = Some m \<longleftrightarrow> filter (maximal_in L ?C) ?C = [m]"
    using assms(2) by (simp add: hasse_kappa_def Let_def split: list.splits)
  also have "\<dots> \<longleftrightarrow> m \<in> set ?C \<and> maximal_in L ?C m \<and> (\<forall>y\<in>set ?C. maximal_in L ?C y \<longrightarrow> y = m)"
    by (rule filter_singleton_iff [OF d])
  also have "\<dots> \<longleftrightarrow> unique_maximal_skipping L j l m"
  proof -
    have A: "y \<in> set ?C \<and> y \<in> set (elements L)" if "maximal_skipping L j l y" for y
      using that by (simp add: maximal_skipping_def set_kappa_candidates skips_def)
    show ?thesis
      unfolding maximal_in_candidates unique_maximal_skipping_def using A by blast
  qed
  finally show ?thesis .
qed

lemma exists_maximal_above:
  assumes P: "is_poset L" and C: "set C \<subseteq> set (elements L)"
  shows "x \<in> set C \<Longrightarrow> \<exists>m. maximal_in L C m \<and> leq L x m"
proof (induction "card {y \<in> set C. lt L x y}" arbitrary: x rule: less_induct)
  case less
  from less.prems C have xE: "x \<in> set (elements L)" by blast
  show ?case
  proof (cases "\<exists>y\<in>set C. lt L x y")
    case False
    with less.prems have "maximal_in L C x"
      by (auto simp: maximal_in_def lt_def)
    moreover have "leq L x x" by (rule poset_refl [OF P xE])
    ultimately show ?thesis by blast
  next
    case True
    then obtain y where y: "y \<in> set C" "lt L x y" by blast
    with C have yE: "y \<in> set (elements L)" by blast
    have "{w \<in> set C. lt L y w} \<subseteq> {w \<in> set C. lt L x w}"
      using P xE yE y(2) C by (auto intro: lt_trans)
    moreover have "y \<in> {w \<in> set C. lt L x w}" using y by simp
    moreover have "y \<notin> {w \<in> set C. lt L y w}" by (simp add: lt_def)
    ultimately have "{w \<in> set C. lt L y w} \<subset> {w \<in> set C. lt L x w}" by blast
    then have "card {w \<in> set C. lt L y w} < card {w \<in> set C. lt L x w}"
      by (intro psubset_card_mono) simp_all
    from less.hyps [OF this y(1)] obtain m where m: "maximal_in L C m" "leq L y m"
      by blast
    from m(1) C have mE: "m \<in> set (elements L)" by (auto simp: maximal_in_def)
    from y(2) have "leq L x y" by (simp add: lt_def)
    with m(2) have "leq L x m"
      using P xE yE mE by (blast intro: poset_trans)
    with m(1) show ?thesis by blast
  qed
qed

lemma unique_maximal_greatest:
  assumes P: "is_poset L" and u: "unique_maximal_skipping L j l m" and x: "skips L j l x"
  shows "leq L x m"
proof -
  let ?C = "kappa_candidates L j l"
  have "set ?C \<subseteq> set (elements L)"
    by (auto simp: kappa_candidates_def)
  moreover from x have "x \<in> set ?C" by (simp add: set_kappa_candidates)
  ultimately obtain m' where m': "maximal_in L ?C m'" "leq L x m'"
    using exists_maximal_above [OF P] by blast
  from m'(1) have ms: "maximal_skipping L j l m'"
    by (simp add: maximal_in_candidates)
  then have "m' \<in> set (elements L)"
    by (simp add: maximal_skipping_def skips_def)
  with u ms have "m' = m"
    by (simp add: unique_maximal_skipping_def)
  with m'(2) show ?thesis by simp
qed

lemma join_irreducible_lower_cover:
  assumes "j \<in> set (join_irreducibles L)"
  shows "j \<in> set (elements L) \<and> (\<exists>l. lower_covers L j = [l])"
proof -
  from assms have "j \<in> set (elements L)" and "length (lower_covers L j) = 1"
    by (simp_all add: join_irreducibles_def)
  moreover from this(2) have "\<exists>l. lower_covers L j = [l]"
    by (cases "lower_covers L j") auto
  ultimately show ?thesis by blast
qed

text \<open>
  Claim C1. For a join-irreducible \<open>j\<close> with lower cover \<open>l\<close>, \<open>_kappa(j)\<close> is an
  element \<open>m\<close> exactly when \<open>m\<close> is the unique maximal element among the \<open>x\<close> with
  \<open>l \<le> x\<close> and not \<open>j \<le> x\<close>, and then every such \<open>x\<close> lies below \<open>m\<close>; it is \<open>None\<close>
  exactly when there is no unique maximal element. No error is raised.
\<close>

theorem kappa_unique_maximal:
  assumes "is_poset L" and "j \<in> set (join_irreducibles L)"
  shows "\<exists>l. lower_covers L j = [l] \<and>
           (\<forall>m. kappa_of L j = Some m \<longleftrightarrow> unique_maximal_skipping L j l m) \<and>
           (\<forall>m. kappa_of L j = Some m \<longrightarrow> (\<forall>x. skips L j l x \<longrightarrow> leq L x m)) \<and>
           (kappa_of L j = None \<longleftrightarrow> (\<forall>m. \<not> unique_maximal_skipping L j l m))"
proof -
  from join_irreducible_lower_cover [OF assms(2)] obtain l where l: "lower_covers L j = [l]"
    by blast
  have iff: "kappa_of L j = Some m \<longleftrightarrow> unique_maximal_skipping L j l m" for m
    by (simp add: kappa_of_eq hasse_kappa_Some_iff [OF assms(1) l])
  have gr: "leq L x m" if "kappa_of L j = Some m" and "skips L j l x" for m x
    using that iff unique_maximal_greatest [OF assms(1)] by blast
  have "kappa_of L j = None \<longleftrightarrow> (\<forall>m. kappa_of L j \<noteq> Some m)"
    by (cases "kappa_of L j") simp_all
  with iff have none: "kappa_of L j = None \<longleftrightarrow> (\<forall>m. \<not> unique_maximal_skipping L j l m)"
    by simp
  show ?thesis
  proof (intro exI [of _ l] conjI allI impI)
    show "lower_covers L j = [l]" by (rule l)
  next
    fix m show "kappa_of L j = Some m \<longleftrightarrow> unique_maximal_skipping L j l m" by (rule iff)
  next
    fix m x assume "kappa_of L j = Some m" and "skips L j l x"
    then show "leq L x m" by (rule gr)
  next
    show "kappa_of L j = None \<longleftrightarrow> (\<forall>m. \<not> unique_maximal_skipping L j l m)" by (rule none)
  qed
qed

theorem kappa_unique_maximal_witness:
  "is_poset diamond \<and> 2 \<in> set (join_irreducibles diamond) \<and> lower_covers diamond 2 = [1] \<and>
   kappa_of diamond 2 = Some 3 \<and> unique_maximal_skipping diamond 2 1 3 \<and>
   is_poset m3 \<and> 2 \<in> set (join_irreducibles m3) \<and> lower_covers m3 2 = [1] \<and>
   kappa_of m3 2 = None \<and> \<not> unique_maximal_skipping m3 2 1 3"
proof -
  have a: "is_poset diamond" by code_simp
  have b: "2 \<in> set (join_irreducibles diamond)" by code_simp
  have c: "lower_covers diamond 2 = [1]" by code_simp
  have d: "kappa_of diamond 2 = Some 3" by code_simp
  have a': "is_poset m3" by code_simp
  have b': "2 \<in> set (join_irreducibles m3)" by code_simp
  have c': "lower_covers m3 2 = [1]" by code_simp
  have d': "kappa_of m3 2 = None" by code_simp
  from kappa_unique_maximal [OF a b] c d have e: "unique_maximal_skipping diamond 2 1 3"
    by auto
  from kappa_unique_maximal [OF a' b'] c' d' have e': "\<not> unique_maximal_skipping m3 2 1 3"
    by auto
  from a b c d e a' b' c' d' e' show ?thesis by blast
qed

section \<open>Semidistributivity\<close>

lemma join_singleton:
  assumes "is_poset L" and "x \<in> set (elements L)"
  shows "join L [x] = Some x"
  by (rule joinI [OF assms]) (simp_all add: poset_refl [OF assms])

lemma join_Cons:
  assumes P: "is_poset L" and xs: "set (x # xs) \<subseteq> set (elements L)"
    and z: "join L (x # xs) = Some z" and z': "join L xs = Some z'"
  shows "join L [x, z'] = Some z"
proof (rule joinI [OF P join_elem [OF z]])
  fix y assume "y \<in> set [x, z']"
  then consider "y = x" | "y = z'" by auto
  then show "leq L y z"
  proof cases
    case 1
    then show ?thesis using join_upper [OF z, of x] by simp
  next
    case 2
    have "leq L z' z"
      by (rule join_least [OF z' join_elem [OF z]]) (simp add: join_upper [OF z])
    with 2 show ?thesis by simp
  qed
next
  fix w assume w: "w \<in> set (elements L)" and ub: "\<forall>y\<in>set [x, z']. leq L y w"
  show "leq L z w"
  proof (rule join_least [OF z w])
    fix y assume "y \<in> set (x # xs)"
    then consider "y = x" | "y \<in> set xs" by auto
    then show "leq L y w"
    proof cases
      case 1
      with ub show ?thesis by simp
    next
      case 2
      then have "leq L y z'" by (rule join_upper [OF z'])
      moreover from ub have "leq L z' w" by simp
      moreover from 2 xs have "y \<in> set (elements L)" by auto
      ultimately show ?thesis
        using P join_elem [OF z'] w by (blast intro: poset_trans)
    qed
  qed
qed

lemma join_mono:
  assumes "join L xs = Some a" and "join L ys = Some b" and "set xs \<subseteq> set ys"
  shows "leq L a b"
proof (rule join_least [OF assms(1) join_elem [OF assms(2)]])
  fix x assume "x \<in> set xs"
  with assms(3) have "x \<in> set ys" by blast
  then show "leq L x b" by (rule join_upper [OF assms(2)])
qed

lemma meet_mono:
  assumes "meet L xs = Some a" and "meet L ys = Some b" and "set xs \<subseteq> set ys"
  shows "leq L b a"
  using join_mono [of "dual L" xs a ys b] assms by (simp add: join_dual)

lemma meet_sd_closed:
  assumes Lat: "is_lattice L" and sd: "is_meet_semidistributive L"
    and a: "a \<in> set (elements L)"
  shows "xs \<noteq> [] \<Longrightarrow> set xs \<subseteq> set (elements L) \<Longrightarrow> \<forall>x\<in>set xs. meet L [a, x] = Some u \<Longrightarrow>
         join L xs = Some z \<Longrightarrow> meet L [a, z] = Some u"
proof (induction xs arbitrary: z rule: list_nonempty_induct)
  case (single x)
  then have "join L [x] = Some x"
    by (intro join_singleton lattice_poset [OF Lat]) simp
  with single show ?case by simp
next
  case (cons x xs)
  from cons.prems have xE: "x \<in> set (elements L)" and xsE: "set xs \<subseteq> set (elements L)"
    by simp_all
  from join_exists [OF Lat xsE] obtain z' where z': "join L xs = Some z'" by blast
  from cons.prems have "\<forall>y\<in>set xs. meet L [a, y] = Some u" by simp
  with cons.IH [OF xsE _ z'] have mz': "meet L [a, z'] = Some u" by blast
  from cons.prems have mx: "meet L [a, x] = Some u" by simp
  have jz: "join L [x, z'] = Some z"
    by (rule join_Cons [OF lattice_poset [OF Lat] cons.prems(1) cons.prems(3) z'])
  from sd a xE join_elem [OF z'] mx mz'
  have "Option.bind (join L [x, z']) (\<lambda>w. meet L [a, w]) = meet L [a, x]"
    unfolding is_meet_semidistributive_def by simp
  with jz mx show ?case by simp
qed

lemma cover_not_below:
  assumes P: "is_poset L" and a: "a \<in> set (upper_covers L U)" and b: "b \<in> set (upper_covers L U)"
    and le: "leq L a b"
  shows "a = b"
proof (rule ccontr)
  assume "a \<noteq> b"
  with le have "lt L a b" by (simp add: lt_def)
  moreover from a have "a \<in> set (elements L)" "lt L U a" by (simp_all add: upper_covers_iff)
  moreover from b have "\<forall>z\<in>set (elements L). \<not> (lt L U z \<and> lt L z b)"
    by (simp add: upper_covers_iff)
  ultimately show False by blast
qed

lemma meet_with_cover:
  assumes Lat: "is_lattice L" and a: "a \<in> set (upper_covers L U)"
    and U: "U \<in> set (elements L)" and x: "x \<in> set (elements L)"
    and Ux: "leq L U x" and nax: "\<not> leq L a x"
  shows "meet L [a, x] = Some U"
proof -
  note P = lattice_poset [OF Lat]
  from a have aE: "a \<in> set (elements L)" and Ua: "lt L U a"
    and cov: "\<forall>z\<in>set (elements L). \<not> (lt L U z \<and> lt L z a)"
    by (simp_all add: upper_covers_iff)
  show ?thesis
  proof (rule meetI [OF P U])
    fix y assume "y \<in> set [a, x]"
    with Ua Ux show "leq L U y" by (auto simp: lt_def)
  next
    fix v assume v: "v \<in> set (elements L)" and lb: "\<forall>y\<in>set [a, x]. leq L v y"
    then have va: "leq L v a" and vx: "leq L v x" by simp_all
    from join_exists [OF Lat, of "[v, U]"] v U obtain w where w: "join L [v, U] = Some w"
      by auto
    have wE: "w \<in> set (elements L)" by (rule join_elem [OF w])
    have Uw: "leq L U w" using join_upper [OF w, of U] by simp
    have vw: "leq L v w" using join_upper [OF w, of v] by simp
    have wa: "leq L w a"
      by (rule join_least [OF w aE]) (use va Ua in \<open>auto simp: lt_def\<close>)
    have wx: "leq L w x"
      by (rule join_least [OF w x]) (use vx Ux in auto)
    from wx nax have "w \<noteq> a" by blast
    with wa have "lt L w a" by (simp add: lt_def)
    with cov wE have "\<not> lt L U w" by blast
    with Uw have "w = U" by (simp add: lt_def)
    with vw show "leq L v U" by simp
  qed
qed

section \<open>Wide, ICE and IKE intervals\<close>

lemma lt_leq: "lt L x y \<Longrightarrow> leq L x y"
  by (simp add: lt_def)

lemma wide_meet_lower_covers:
  assumes Lat: "is_lattice L" and sd: "is_meet_semidistributive L"
    and U: "U \<in> set (elements L)" and T: "T \<in> set (elements L)" and UT: "lt L U T"
    and wide: "join L [x \<leftarrow> upper_covers L U. leq L x T] = Some T"
    and m: "meet L (lower_covers L T) = Some m"
  shows "leq L m U"
proof (rule ccontr)
  assume nmU: "\<not> leq L m U"
  note P = lattice_poset [OF Lat]
  have mE: "m \<in> set (elements L)" by (rule meet_elem [OF m])
  \<comment> \<open>the meet of the lower covers lies below \<open>T\<close>\<close>
  from exists_lower_cover [OF P T U UT] obtain c0
    where c0: "c0 \<in> set (lower_covers L T)" "leq L U c0" by blast
  from c0(1) have c0E: "c0 \<in> set (elements L)" and c0T: "leq L c0 T"
    by (simp_all add: lower_covers_iff lt_def)
  have "leq L m c0" by (rule meet_lower [OF m c0(1)])
  with c0T have mT: "leq L m T"
    using P mE c0E T by (blast intro: poset_trans)
  \<comment> \<open>an upper cover \<open>a\<close> of \<open>U\<close> below the join of \<open>m\<close> and \<open>U\<close>\<close>
  from join_exists [OF Lat, of "[m, U]"] mE U obtain w where w: "join L [m, U] = Some w"
    by auto
  have wE: "w \<in> set (elements L)" by (rule join_elem [OF w])
  have mw: "leq L m w" using join_upper [OF w, of m] by simp
  have Uw: "leq L U w" using join_upper [OF w, of U] by simp
  have wT: "leq L w T"
    by (rule join_least [OF w T]) (use mT UT in \<open>auto simp: lt_def\<close>)
  from mw nmU have "w \<noteq> U" by blast
  with Uw have "lt L U w" by (auto simp: lt_def)
  from exists_upper_cover [OF P U wE this] obtain a
    where a: "a \<in> set (upper_covers L U)" "leq L a w" by blast
  from a(1) have aE: "a \<in> set (elements L)" and Ua: "lt L U a"
    by (simp_all add: upper_covers_iff)
  from a(2) wT have aT: "leq L a T"
    using P aE wE T by (blast intro: poset_trans)
  \<comment> \<open>the join \<open>k\<close> of the elements of the interval that are not above \<open>a\<close>\<close>
  define S where "S = [x \<leftarrow> elements L. leq L U x \<and> leq L x T \<and> \<not> leq L a x]"
  have SE: "set S \<subseteq> set (elements L)" by (auto simp: S_def)
  have naU: "\<not> leq L a U"
  proof
    assume "leq L a U"
    with Ua have "a = U" using P aE U by (blast intro: poset_antisym lt_leq)
    with Ua show False by (simp add: lt_def)
  qed
  have US: "U \<in> set S"
    using U UT naU by (simp add: S_def poset_refl [OF P] lt_def)
  then have Sne: "S \<noteq> []" by auto
  have Smeet: "\<forall>x\<in>set S. meet L [a, x] = Some U"
  proof
    fix x assume "x \<in> set S"
    then have "x \<in> set (elements L)" "leq L U x" "\<not> leq L a x"
      by (simp_all add: S_def)
    then show "meet L [a, x] = Some U"
      by (intro meet_with_cover [OF Lat a(1) U])
  qed
  from join_exists [OF Lat SE] obtain k where k: "join L S = Some k" by blast
  have kE: "k \<in> set (elements L)" by (rule join_elem [OF k])
  have ak: "meet L [a, k] = Some U"
    by (rule meet_sd_closed [OF Lat sd aE Sne SE Smeet k])
  have nak: "\<not> leq L a k"
  proof
    assume "leq L a k"
    have "leq L U a" using meet_lower [OF ak, of a] by simp
    moreover have "leq L a U"
      by (rule meet_greatest [OF ak aE]) (use \<open>leq L a k\<close> poset_refl [OF P aE] in auto)
    ultimately have "a = U" using P aE U by (blast intro: poset_antisym)
    with Ua show False by (simp add: lt_def)
  qed
  have Uk: "leq L U k" by (rule join_upper [OF k US])
  have kT: "leq L k T"
    by (rule join_least [OF k T]) (simp add: S_def)
  from nak aT have "k \<noteq> T" by blast
  with kT have "lt L k T" by (simp add: lt_def)
  \<comment> \<open>a lower cover \<open>c\<close> of \<open>T\<close> above \<open>k\<close> is not above \<open>a\<close>\<close>
  from exists_lower_cover [OF P T kE this] obtain c
    where c: "c \<in> set (lower_covers L T)" "leq L k c" by blast
  from c(1) have cE: "c \<in> set (elements L)" and cT: "lt L c T"
    by (simp_all add: lower_covers_iff)
  have nac: "\<not> leq L a c"
  proof
    assume ac: "leq L a c"
    have "leq L T c"
    proof (rule join_least [OF wide cE])
      fix a' assume "a' \<in> set [x \<leftarrow> upper_covers L U. leq L x T]"
      then have a': "a' \<in> set (upper_covers L U)" and a'T: "leq L a' T" by simp_all
      from a' have a'E: "a' \<in> set (elements L)" and Ua': "lt L U a'"
        by (simp_all add: upper_covers_iff)
      show "leq L a' c"
      proof (cases "a' = a")
        case True
        with ac show ?thesis by simp
      next
        case False
        then have "\<not> leq L a a'"
          using cover_not_below [OF P a(1) a'] by blast
        with a'E Ua' a'T have "a' \<in> set S" by (simp add: S_def lt_def)
        then have "leq L a' k" by (rule join_upper [OF k])
        with c(2) show ?thesis
          using P a'E kE cE by (blast intro: poset_trans)
      qed
    qed
    with cT have "c = T" using P cE T by (blast intro: poset_antisym lt_leq)
    with cT show False by (simp add: lt_def)
  qed
  have "leq L m c" by (rule meet_lower [OF m c(1)])
  moreover have "leq L U c"
    using Uk c(2) P U kE cE by (blast intro: poset_trans)
  ultimately have "leq L w c"
    by (intro join_least [OF w cE]) auto
  with a(2) have "leq L a c"
    using P aE wE cE by (blast intro: poset_trans)
  with nac show False by blast
qed


lemma plus_L_ge:
  assumes Lat: "is_lattice L" and U: "U \<in> set (elements L)"
  shows "\<exists>p. plus_L L U = Inr p \<and> leq L U p \<and>
           (Some U \<noteq> whole L \<longrightarrow> join L (upper_covers L U) = Some p)"
proof (cases "Some U = whole L")
  case True
  with U poset_refl [OF lattice_poset [OF Lat] U] show ?thesis
    by (simp add: plus_L_def)
next
  case False
  note P = lattice_poset [OF Lat]
  from top_exists [OF Lat] obtain t where t: "top_L L = Some t" by blast
  have tE: "t \<in> set (elements L)" by (rule top_elem [OF t])
  from False t have "U \<noteq> t" by (auto simp: whole_def)
  with top_greatest [OF t U] have "lt L U t" by (simp add: lt_def)
  from exists_upper_cover [OF P U tE this] obtain c where c: "c \<in> set (upper_covers L U)"
    by blast
  then have cE: "c \<in> set (elements L)" and Uc: "leq L U c"
    by (simp_all add: upper_covers_iff lt_def)
  from join_exists [OF Lat upper_covers_subset] obtain p
    where p: "join L (upper_covers L U) = Some p" by blast
  have "leq L c p" by (rule join_upper [OF p c])
  with Uc have "leq L U p"
    using P U cE join_elem [OF p] by (blast intro: poset_trans)
  moreover from False U p have "plus_L L U = Inr p"
    by (simp add: plus_L_def join_res_def)
  ultimately show ?thesis using p by blast
qed

lemma minus_L_dual: "minus_L L T = plus_L (dual L) T"
  by (simp add: minus_L_def plus_L_def coerce_def zero_def whole_def top_dual
      meet_res_def join_res_def join_dual upper_covers_dual)

lemma minus_L_le:
  assumes "is_lattice L" and "T \<in> set (elements L)"
  shows "\<exists>m. minus_L L T = Inr m \<and> leq L m T \<and>
           (Some T \<noteq> zero L \<longrightarrow> meet L (lower_covers L T) = Some m)"
  using plus_L_ge [of "dual L" T] assms
  by (simp add: minus_L_dual is_lattice_dual whole_def zero_def top_dual join_dual
      upper_covers_dual)

text \<open>
  Claim C4. In a finite semidistributive lattice, for elements \<open>U \<le> T\<close>: if
  \<open>is_wide_itv((U,T))\<close> returns \<open>True\<close>, then \<open>is_ice_itv((U,T))\<close> and
  \<open>is_ike_itv((U,T))\<close> return \<open>True\<close>, whatever the \<open>check\<close> flags are.
\<close>

theorem wide_is_ice_and_ike:
  assumes Lat: "is_lattice L" and sd: "is_semidistributive L"
    and U: "U \<in> set (elements L)" and T: "T \<in> set (elements L)"
    and UT: "is_lequal L U T"
    and wide: "is_wide_itv L (U, T) c1 = Inr True"
  shows "is_ice_itv L (U, T) c2 = Inr True \<and> is_ike_itv L (U, T) c3 = Inr True"
proof -
  note P = lattice_poset [OF Lat]
  from UT have le: "leq L U T" by (simp add: is_lequal_def)
  from plus_L_ge [OF Lat U] obtain p where p: "plus_L L U = Inr p" "leq L U p"
    "Some U \<noteq> whole L \<longrightarrow> join L (upper_covers L U) = Some p" by blast
  from minus_L_le [OF Lat T] obtain m where m: "minus_L L T = Inr m" "leq L m T"
    "Some T \<noteq> zero L \<longrightarrow> meet L (lower_covers L T) = Some m" by blast
  have ice: "is_ice_itv L (U, T) c2 = Inr (leq L T p)"
    using U T UT p(1) by (simp add: is_ice_itv_def is_lequal_def)
  have ike: "is_ike_itv L (U, T) c3 = Inr (leq L m U)"
    using U T UT m(1) by (simp add: is_ike_itv_def is_lequal_def)
  show ?thesis
  proof (cases "U = T")
    case True
    with p(2) m(2) ice ike show ?thesis by simp
  next
    case False
    with le have lt: "lt L U T" by (simp add: lt_def)
    let ?covers = "[x \<leftarrow> upper_covers L U. leq L x T]"
    from wide U T UT False
    have "bindE (join_res L ?covers) (\<lambda>j. Inr (T = j)) = Inr True"
      by (simp add: is_wide_itv_def is_lequal_def)
    then have j: "join L ?covers = Some T"
      by (cases "join L ?covers") (simp_all add: join_res_def)
    have "Some U \<noteq> whole L"
    proof
      assume "Some U = whole L"
      then have "top_L L = Some U" by (simp add: whole_def)
      from top_greatest [OF this T] le have "U = T"
        using P U T by (blast intro: poset_antisym)
      with False show False by simp
    qed
    with p(3) have jp: "join L (upper_covers L U) = Some p" by simp
    have Tp: "leq L T p"
      by (rule join_mono [OF j jp]) simp
    have "Some T \<noteq> zero L"
    proof
      assume "Some T = zero L"
      then have "bottom L = Some T" by (simp add: zero_def)
      from bottom_least [OF this U] le have "U = T"
        using P U T by (blast intro: poset_antisym)
      with False show False by simp
    qed
    with m(3) have mm: "meet L (lower_covers L T) = Some m" by simp
    from sd have "is_meet_semidistributive L" by (simp add: is_semidistributive_def)
    from wide_meet_lower_covers [OF Lat this U T lt j mm] have "leq L m U" .
    with Tp ice ike show ?thesis by simp
  qed
qed

theorem wide_is_ice_and_ike_witness:
  "is_lattice diamond \<and> is_semidistributive diamond \<and>
   1 \<in> set (elements diamond) \<and> 6 \<in> set (elements diamond) \<and> is_lequal diamond 1 6 \<and>
   is_wide_itv diamond (1, 6) True = Inr True \<and>
   is_ice_itv diamond (1, 6) True = Inr True \<and> is_ike_itv diamond (1, 6) True = Inr True"
proof -
  have a: "is_lattice diamond" by code_simp
  have b: "is_semidistributive diamond" by code_simp
  have c: "1 \<in> set (elements diamond)" and d: "6 \<in> set (elements diamond)"
    by (simp_all add: diamond_def)
  have e: "is_lequal diamond 1 6" by (simp add: is_lequal_def diamond_def)
  have f: "is_wide_itv diamond (1, 6) True = Inr True" by code_simp
  from wide_is_ice_and_ike [OF a b c d e f, of True True] a b c d e f
  show ?thesis by blast
qed

section \<open>Existence of kappa\<close>

lemma kappa_core:
  assumes Lat: "is_lattice L" and sd: "is_meet_semidistributive L"
    and a: "a \<in> set (upper_covers L U)" and U: "U \<in> set (elements L)"
  shows "\<exists>k\<in>set (elements L). leq L U k \<and> \<not> leq L a k \<and>
           (\<forall>x\<in>set (elements L). leq L U x \<and> \<not> leq L a x \<longrightarrow> leq L x k)"
proof -
  note P = lattice_poset [OF Lat]
  from a have aE: "a \<in> set (elements L)" and Ua: "lt L U a"
    by (simp_all add: upper_covers_iff)
  define S where "S = [x \<leftarrow> elements L. leq L U x \<and> \<not> leq L a x]"
  have SE: "set S \<subseteq> set (elements L)" by (auto simp: S_def)
  have naU: "\<not> leq L a U"
  proof
    assume "leq L a U"
    with Ua have "a = U" using P aE U by (blast intro: poset_antisym lt_leq)
    with Ua show False by (simp add: lt_def)
  qed
  have US: "U \<in> set S"
    using U naU by (simp add: S_def poset_refl [OF P])
  then have Sne: "S \<noteq> []" by auto
  have Smeet: "\<forall>x\<in>set S. meet L [a, x] = Some U"
  proof
    fix x assume "x \<in> set S"
    then have "x \<in> set (elements L)" "leq L U x" "\<not> leq L a x"
      by (simp_all add: S_def)
    then show "meet L [a, x] = Some U"
      by (intro meet_with_cover [OF Lat a U])
  qed
  from join_exists [OF Lat SE] obtain k where k: "join L S = Some k" by blast
  have kE: "k \<in> set (elements L)" by (rule join_elem [OF k])
  have ak: "meet L [a, k] = Some U"
    by (rule meet_sd_closed [OF Lat sd aE Sne SE Smeet k])
  have nak: "\<not> leq L a k"
  proof
    assume "leq L a k"
    have "leq L U a" using meet_lower [OF ak, of a] by simp
    moreover have "leq L a U"
      by (rule meet_greatest [OF ak aE]) (use \<open>leq L a k\<close> poset_refl [OF P aE] in auto)
    ultimately have "a = U" using P aE U by (blast intro: poset_antisym)
    with Ua show False by (simp add: lt_def)
  qed
  have Uk: "leq L U k" by (rule join_upper [OF k US])
  have "leq L x k" if "x \<in> set (elements L)" and "leq L U x" and "\<not> leq L a x" for x
  proof -
    from that have "x \<in> set S" by (simp add: S_def)
    then show ?thesis by (rule join_upper [OF k])
  qed
  with kE Uk nak show ?thesis by blast
qed

lemma lower_cover_upper_cover:
  "l \<in> set (lower_covers L j) \<Longrightarrow> j \<in> set (elements L) \<Longrightarrow> j \<in> set (upper_covers L l)"
  by (simp add: lower_covers_iff upper_covers_iff)

lemma hasse_kappa_exists:
  assumes Lat: "is_lattice L" and sd: "is_meet_semidistributive L"
    and j: "j \<in> set (elements L)" and l: "lower_covers L j = [l]"
  shows "\<exists>k\<in>set (elements L). hasse_kappa L j = Some k"
proof -
  note P = lattice_poset [OF Lat]
  from l have ll: "l \<in> set (lower_covers L j)" by simp
  then have lE: "l \<in> set (elements L)" by (simp add: lower_covers_iff)
  from lower_cover_upper_cover [OF ll j] have ju: "j \<in> set (upper_covers L l)" .
  from kappa_core [OF Lat sd ju lE] obtain k where kE: "k \<in> set (elements L)"
    and lk: "leq L l k" and njk: "\<not> leq L j k"
    and gr: "\<forall>x\<in>set (elements L). leq L l x \<and> \<not> leq L j x \<longrightarrow> leq L x k"
    by blast
  have sk: "skips L j l k"
    using kE lk njk by (simp add: skips_def)
  have mx: "maximal_skipping L j l k"
    unfolding maximal_skipping_def
  proof (intro conjI ballI impI)
    show "skips L j l k" by (rule sk)
  next
    fix x assume x: "x \<in> set (elements L)" and h: "skips L j l x \<and> leq L k x"
    with gr have "leq L x k" by (simp add: skips_def)
    with h show "x = k" using P x kE by (blast intro: poset_antisym)
  qed
  have "unique_maximal_skipping L j l k"
    unfolding unique_maximal_skipping_def
  proof (intro conjI ballI impI)
    show "maximal_skipping L j l k" by (rule mx)
  next
    fix m' assume m': "m' \<in> set (elements L)" and h: "maximal_skipping L j l m'"
    then have "leq L m' k" using gr by (simp add: maximal_skipping_def skips_def)
    with h sk kE show "m' = k" by (auto simp: maximal_skipping_def)
  qed
  then have "hasse_kappa L j = Some k"
    by (simp add: hasse_kappa_Some_iff [OF P l])
  with kE show ?thesis by blast
qed

section \<open>Canonical join representations\<close>

lemma filter_in_subseqs: "filter P xs \<in> set (subseqs xs)"
  by (induction xs) (auto simp: Let_def)

lemma subseqs_subset: "A \<in> set (subseqs xs) \<Longrightarrow> set A \<subseteq> set xs"
  using subseqs_powset [of xs] by blast

lemma join_in_reps:
  assumes "join L B = Some x" and "set B \<subseteq> set (elements L)"
  shows "\<exists>B'. set B' = set B \<and>
           B' \<in> set [B \<leftarrow> subseqs [y \<leftarrow> elements L. leq L y x]. join L B = Some x]"
proof -
  let ?below = "[y \<leftarrow> elements L. leq L y x]"
  let ?B' = "[y \<leftarrow> ?below. y \<in> set B]"
  have "set ?B' = set B"
    using assms(2) join_upper [OF assms(1)] by auto
  moreover from this have "join L ?B' = Some x"
    using assms(1) join_cong_set [of ?B' B L] by simp
  moreover have "?B' \<in> set (subseqs ?below)" by (rule filter_in_subseqs)
  ultimately show ?thesis by (intro exI [of _ ?B']) simp
qed

lemma canonical_joinands_SomeD:
  assumes "canonical_joinands L x = Some A"
  shows "set A \<subseteq> set (elements L)" and "join L A = Some x"
    and "\<And>a b. a \<in> set A \<Longrightarrow> b \<in> set A \<Longrightarrow> leq L a b \<Longrightarrow> a = b"
    and "\<And>B a. join L B = Some x \<Longrightarrow> set B \<subseteq> set (elements L) \<Longrightarrow> a \<in> set A \<Longrightarrow>
           \<exists>b\<in>set B. leq L a b"
proof -
  let ?below = "[y \<leftarrow> elements L. leq L y x]"
  let ?reps = "[B \<leftarrow> subseqs ?below. join L B = Some x]"
  let ?Q = "\<lambda>A. (\<forall>a\<in>set A. \<forall>b\<in>set A. leq L a b \<longrightarrow> a = b) \<and>
                 (\<forall>B\<in>set ?reps. \<forall>a\<in>set A. \<exists>b\<in>set B. leq L a b)"
  from assms have "find ?Q ?reps = Some A"
    by (simp add: canonical_joinands_def Let_def)
  then have Q: "?Q A" and A: "A \<in> set ?reps"
    by (auto dest: find_SomeD)
  from A have "A \<in> set (subseqs ?below)" and j: "join L A = Some x" by simp_all
  then have "set A \<subseteq> set ?below" by (intro subseqs_subset)
  then show "set A \<subseteq> set (elements L)" by auto
  show "join L A = Some x" by (rule j)
  show "a = b" if "a \<in> set A" "b \<in> set A" "leq L a b" for a b
    using Q that by blast
  show "\<exists>b\<in>set B. leq L a b"
    if "join L B = Some x" "set B \<subseteq> set (elements L)" "a \<in> set A" for B a
  proof -
    from join_in_reps [OF that(1,2)] obtain B' where "set B' = set B" "B' \<in> set ?reps"
      by blast
    with Q that(3) show ?thesis by blast
  qed
qed

lemma canonical_joinands_exists_if:
  assumes "join L A = Some x" and "set A \<subseteq> set (elements L)"
    and "\<And>a b. a \<in> set A \<Longrightarrow> b \<in> set A \<Longrightarrow> leq L a b \<Longrightarrow> a = b"
    and "\<And>B a. join L B = Some x \<Longrightarrow> set B \<subseteq> set (elements L) \<Longrightarrow> a \<in> set A \<Longrightarrow>
           \<exists>b\<in>set B. leq L a b"
  shows "\<exists>A'. canonical_joinands L x = Some A'"
proof -
  let ?below = "[y \<leftarrow> elements L. leq L y x]"
  let ?reps = "[B \<leftarrow> subseqs ?below. join L B = Some x]"
  let ?Q = "\<lambda>A. (\<forall>a\<in>set A. \<forall>b\<in>set A. leq L a b \<longrightarrow> a = b) \<and>
                 (\<forall>B\<in>set ?reps. \<forall>a\<in>set A. \<exists>b\<in>set B. leq L a b)"
  from join_in_reps [OF assms(1,2)] obtain A' where A': "set A' = set A" "A' \<in> set ?reps"
    by blast
  have "?Q A'"
  proof (intro conjI ballI impI)
    fix a b assume "a \<in> set A'" "b \<in> set A'" "leq L a b"
    with A'(1) assms(3) show "a = b" by simp
  next
    fix B a assume B: "B \<in> set ?reps" and a: "a \<in> set A'"
    from B have jB: "join L B = Some x" and sB: "B \<in> set (subseqs ?below)" by simp_all
    from sB have "set B \<subseteq> set ?below" by (rule subseqs_subset)
    then have BE: "set B \<subseteq> set (elements L)" by auto
    from a A'(1) have "a \<in> set A" by simp
    with jB BE show "\<exists>b\<in>set B. leq L a b" by (rule assms(4))
  qed
  with A'(2) have "\<exists>y. find ?Q ?reps = Some y"
    by (intro find_exists [of A'])
  then show ?thesis
    by (simp add: canonical_joinands_def Let_def)
qed

lemma lower_cover_not_below:
  assumes "is_poset L" and "a \<in> set (lower_covers L x)" and "b \<in> set (lower_covers L x)"
    and "leq L a b"
  shows "a = b"
proof -
  have "b = a"
    by (rule cover_not_below [of "dual L" b x a])
      (simp_all add: is_poset_dual upper_covers_dual assms)
  then show ?thesis by simp
qed

lemma canonical_joinand_no_replacement:
  assumes Lat: "is_lattice L" and cj: "canonical_joinands L x = Some A" and a: "a \<in> set A"
    and D: "set D \<subseteq> set (elements L)" and Da: "\<forall>d\<in>set D. lt L d a"
    and aD: "\<forall>w\<in>set (elements L). (\<forall>d\<in>set D. leq L d w) \<longrightarrow> leq L a w"
  shows False
proof -
  note P = lattice_poset [OF Lat]
  note AE = canonical_joinands_SomeD(1) [OF cj]
    and jA = canonical_joinands_SomeD(2) [OF cj]
    and anti = canonical_joinands_SomeD(3) [OF cj]
    and ref = canonical_joinands_SomeD(4) [OF cj]
  have xE: "x \<in> set (elements L)" by (rule join_elem [OF jA])
  from a AE have aE: "a \<in> set (elements L)" by blast
  have ax: "leq L a x" by (rule join_upper [OF jA a])
  let ?B = "D @ [y \<leftarrow> A. y \<noteq> a]"
  have BE: "set ?B \<subseteq> set (elements L)" using D AE by auto
  have jB: "join L ?B = Some x"
  proof (rule joinI [OF P xE])
    fix y assume "y \<in> set ?B"
    then consider "y \<in> set D" | "y \<in> set A" by auto
    then show "leq L y x"
    proof cases
      case 1
      with Da have "leq L y a" by (simp add: lt_def)
      with ax show ?thesis
        using P 1 D aE xE by (blast intro: poset_trans)
    next
      case 2
      then show ?thesis by (rule join_upper [OF jA])
    qed
  next
    fix w assume w: "w \<in> set (elements L)" and ub: "\<forall>y\<in>set ?B. leq L y w"
    then have aw: "leq L a w" using aD by simp
    show "leq L x w"
    proof (rule join_least [OF jA w])
      fix y assume "y \<in> set A"
      with ub aw show "leq L y w" by (cases "y = a") simp_all
    qed
  qed
  from ref [OF jB BE a] obtain b where b: "b \<in> set ?B" "leq L a b" by blast
  from b(1) consider "b \<in> set D" | "b \<in> set A" "b \<noteq> a" by auto
  then show False
  proof cases
    case 1
    with Da have "leq L b a" "b \<noteq> a" by (simp_all add: lt_def)
    moreover from 1 D have "b \<in> set (elements L)" by blast
    ultimately show False using b(2) P aE by (blast intro: poset_antisym)
  next
    case 2
    with anti [OF a 2(1) b(2)] show False by simp
  qed
qed

lemma canonical_joinand_join_irreducible:
  assumes Lat: "is_lattice L" and cj: "canonical_joinands L x = Some A" and a: "a \<in> set A"
  shows "\<exists>l. lower_covers L a = [l]"
proof -
  note P = lattice_poset [OF Lat]
  from a canonical_joinands_SomeD(1) [OF cj] have aE: "a \<in> set (elements L)" by blast
  have ne: "lower_covers L a \<noteq> []"
  proof -
    from bottom_exists [OF Lat] obtain z where z: "bottom L = Some z" by blast
    have zE: "z \<in> set (elements L)" by (rule bottom_elem [OF z])
    have "z \<noteq> a"
    proof
      assume "z = a"
      then have "\<forall>w\<in>set (elements L). leq L a w" using bottom_least [OF z] by simp
      then show False
        using canonical_joinand_no_replacement [OF Lat cj a, of "[]"] by simp
    qed
    with bottom_least [OF z aE] have "lt L z a" by (simp add: lt_def)
    from exists_lower_cover [OF P aE zE this] show ?thesis by auto
  qed
  have eq: "c1 = c2" if c1: "c1 \<in> set (lower_covers L a)" and c2: "c2 \<in> set (lower_covers L a)"
    for c1 c2
  proof (rule ccontr)
    assume neq: "c1 \<noteq> c2"
    from c1 have c1E: "c1 \<in> set (elements L)" and c1a: "lt L c1 a"
      and cov: "\<forall>z\<in>set (elements L). \<not> (lt L c1 z \<and> lt L z a)"
      by (simp_all add: lower_covers_iff)
    from c2 have c2E: "c2 \<in> set (elements L)" and c2a: "lt L c2 a"
      by (simp_all add: lower_covers_iff)
    from join_exists [OF Lat, of "[c1, c2]"] c1E c2E obtain j
      where j: "join L [c1, c2] = Some j" by auto
    have jE: "j \<in> set (elements L)" by (rule join_elem [OF j])
    have c1j: "leq L c1 j" using join_upper [OF j, of c1] by simp
    have c2j: "leq L c2 j" using join_upper [OF j, of c2] by simp
    have ja: "leq L j a"
      by (rule join_least [OF j aE]) (use c1a c2a in \<open>auto simp: lt_def\<close>)
    have "j \<noteq> c1"
    proof
      assume "j = c1"
      with c2j have "leq L c2 c1" by simp
      from lower_cover_not_below [OF P c2 c1 this] neq show False by simp
    qed
    with c1j have "lt L c1 j" by (auto simp: lt_def)
    with cov jE have "\<not> lt L j a" by blast
    with ja have "j = a" by (simp add: lt_def)
    have "\<forall>w\<in>set (elements L). (\<forall>d\<in>set [c1, c2]. leq L d w) \<longrightarrow> leq L a w"
    proof (intro ballI impI)
      fix w assume w: "w \<in> set (elements L)" and "\<forall>d\<in>set [c1, c2]. leq L d w"
      then have "leq L j w" by (intro join_least [OF j w]) auto
      with \<open>j = a\<close> show "leq L a w" by simp
    qed
    then show False
      using canonical_joinand_no_replacement [OF Lat cj a, of "[c1, c2]"] c1E c2E c1a c2a
      by simp
  qed
  from ne obtain l ls where l: "lower_covers L a = l # ls"
    by (cases "lower_covers L a") auto
  have "ls = []"
  proof (cases ls)
    case Nil
    then show ?thesis .
  next
    case (Cons l' ls')
    with l have "l \<in> set (lower_covers L a)" "l' \<in> set (lower_covers L a)" by simp_all
    then have "l = l'" by (rule eq)
    moreover from distinct_lower_covers [OF P, of a] l Cons have "l \<noteq> l'" by auto
    ultimately show ?thesis by simp
  qed
  with l show ?thesis by simp
qed

lemma joinand_core:
  assumes Lat: "is_lattice L" and sd: "is_join_semidistributive L"
    and c: "c \<in> set (lower_covers L x)" and x: "x \<in> set (elements L)"
  shows "\<exists>k\<in>set (elements L). leq L k x \<and> \<not> leq L k c \<and>
           (\<forall>y\<in>set (elements L). leq L y x \<and> \<not> leq L y c \<longrightarrow> leq L k y)"
  using kappa_core [of "dual L" c x] assms
  by (simp add: is_lattice_dual is_meet_semidistributive_dual upper_covers_dual)

lemma join_with_lower_cover:
  assumes Lat: "is_lattice L" and c: "c \<in> set (lower_covers L x)"
    and x: "x \<in> set (elements L)" and y: "y \<in> set (elements L)"
    and yx: "leq L y x" and nyc: "\<not> leq L y c"
  shows "join L [c, y] = Some x"
  using meet_with_cover [of "dual L" c x y] assms
  by (simp add: is_lattice_dual upper_covers_dual meet_dual)

lemma joinand_below_other_cover:
  assumes Lat: "is_lattice L" and sd: "is_join_semidistributive L"
    and x: "x \<in> set (elements L)"
    and c: "c \<in> set (lower_covers L x)" and c': "c' \<in> set (lower_covers L x)"
    and neq: "c \<noteq> c'"
    and k: "k \<in> set (elements L)" "leq L k x" "\<not> leq L k c'"
    and least: "\<forall>y\<in>set (elements L). leq L y x \<and> \<not> leq L y c' \<longrightarrow> leq L k y"
  shows "leq L k c"
proof -
  note P = lattice_poset [OF Lat]
  from c have cE: "c \<in> set (elements L)" and cx: "lt L c x" by (simp_all add: lower_covers_iff)
  from c' have c'E: "c' \<in> set (elements L)" and c'x: "lt L c' x"
    by (simp_all add: lower_covers_iff)
  have ncc': "\<not> leq L c c'"
    using lower_cover_not_below [OF P c c'] neq by blast
  have j1: "join L [c', k] = Some x"
    by (rule join_with_lower_cover [OF Lat c' x k(1) k(2) k(3)])
  have j2: "join L [c', c] = Some x"
    by (rule join_with_lower_cover [OF Lat c' x cE lt_leq [OF cx] ncc'])
  from sd c'E k(1) cE j1 j2
  have b: "Option.bind (meet L [k, c]) (\<lambda>w. join L [c', w]) = Some x"
    unfolding is_join_semidistributive_def by simp
  then obtain v where v: "meet L [k, c] = Some v" and jv: "join L [c', v] = Some x"
    by (cases "meet L [k, c]") simp_all
  have vE: "v \<in> set (elements L)" by (rule meet_elem [OF v])
  have vk: "leq L v k" using meet_lower [OF v, of k] by simp
  have vc: "leq L v c" using meet_lower [OF v, of c] by simp
  from vk k(2) have vx: "leq L v x" using P vE k(1) x by (blast intro: poset_trans)
  have nvc': "\<not> leq L v c'"
  proof
    assume "leq L v c'"
    have "join L [c', v] = Some c'"
      by (rule joinI [OF P c'E]) (use \<open>leq L v c'\<close> poset_refl [OF P c'E] in auto)
    with jv have "c' = x" by simp
    with c'x show False by (simp add: lt_def)
  qed
  from least vE vx nvc' have "leq L k v" by blast
  with vc show ?thesis using P k(1) vE cE by (blast intro: poset_trans)
qed

lemma canonical_joinands_exists:
  assumes Lat: "is_lattice L" and sd: "is_join_semidistributive L"
    and x: "x \<in> set (elements L)"
  shows "\<exists>A. canonical_joinands L x = Some A"
proof -
  note P = lattice_poset [OF Lat]
  have "\<forall>c\<in>set (lower_covers L x). \<exists>k. k \<in> set (elements L) \<and> leq L k x \<and> \<not> leq L k c \<and>
           (\<forall>y\<in>set (elements L). leq L y x \<and> \<not> leq L y c \<longrightarrow> leq L k y)"
    using joinand_core [OF Lat sd _ x] by blast
  then have "\<exists>f. \<forall>c\<in>set (lower_covers L x). f c \<in> set (elements L) \<and> leq L (f c) x \<and>
           \<not> leq L (f c) c \<and>
           (\<forall>y\<in>set (elements L). leq L y x \<and> \<not> leq L y c \<longrightarrow> leq L (f c) y)"
    by (rule bchoice)
  then obtain f where f: "\<And>c. c \<in> set (lower_covers L x) \<Longrightarrow>
      f c \<in> set (elements L) \<and> leq L (f c) x \<and> \<not> leq L (f c) c \<and>
      (\<forall>y\<in>set (elements L). leq L y x \<and> \<not> leq L y c \<longrightarrow> leq L (f c) y)"
    by blast
  let ?A = "map f (lower_covers L x)"
  have AE: "set ?A \<subseteq> set (elements L)" using f by auto
  have jA: "join L ?A = Some x"
  proof (rule joinI [OF P x])
    fix a assume "a \<in> set ?A"
    with f show "leq L a x" by auto
  next
    fix w assume w: "w \<in> set (elements L)" and ub: "\<forall>a\<in>set ?A. leq L a w"
    from meet_exists [OF Lat, of "[w, x]"] w x obtain v where v: "meet L [w, x] = Some v"
      by auto
    have vE: "v \<in> set (elements L)" by (rule meet_elem [OF v])
    have vw: "leq L v w" using meet_lower [OF v, of w] by simp
    have vx: "leq L v x" using meet_lower [OF v, of x] by simp
    have "v = x"
    proof (rule ccontr)
      assume "v \<noteq> x"
      with vx have "lt L v x" by (simp add: lt_def)
      from exists_lower_cover [OF P x vE this] obtain c
        where c: "c \<in> set (lower_covers L x)" "leq L v c" by blast
      from c(1) have cE: "c \<in> set (elements L)" by (simp add: lower_covers_iff)
      from f [OF c(1)] have fE: "f c \<in> set (elements L)" and fx: "leq L (f c) x"
        and nfc: "\<not> leq L (f c) c" by simp_all
      from ub c(1) have "leq L (f c) w" by simp
      with fx have "leq L (f c) v"
        by (intro meet_greatest [OF v fE]) auto
      with c(2) have "leq L (f c) c" using P fE vE cE by (blast intro: poset_trans)
      with nfc show False by blast
    qed
    with vw show "leq L x w" by simp
  qed
  have anti: "a = b" if "a \<in> set ?A" "b \<in> set ?A" "leq L a b" for a b
  proof -
    from that obtain c c' where c: "c \<in> set (lower_covers L x)" "a = f c"
      and c': "c' \<in> set (lower_covers L x)" "b = f c'" by auto
    show ?thesis
    proof (cases "c = c'")
      case True
      with c c' show ?thesis by simp
    next
      case False
      from c(1) have cE: "c \<in> set (elements L)" by (simp add: lower_covers_iff)
      from f [OF c'(1)] have k: "f c' \<in> set (elements L)" "leq L (f c') x" "\<not> leq L (f c') c'"
        and least: "\<forall>y\<in>set (elements L). leq L y x \<and> \<not> leq L y c' \<longrightarrow> leq L (f c') y"
        by simp_all
      have "leq L (f c') c"
        by (rule joinand_below_other_cover [OF Lat sd x c(1) c'(1) False k least])
      with that(3) c(2) c'(2) have "leq L (f c) c"
        using P f [OF c(1)] k(1) cE by (blast intro: poset_trans)
      with f [OF c(1)] show ?thesis by blast
    qed
  qed
  have ref: "\<exists>b\<in>set B. leq L a b"
    if jB: "join L B = Some x" and BE: "set B \<subseteq> set (elements L)" and a: "a \<in> set ?A" for B a
  proof (rule ccontr)
    assume no: "\<not> (\<exists>b\<in>set B. leq L a b)"
    from a obtain c where c: "c \<in> set (lower_covers L x)" "a = f c" by auto
    from c(1) have cE: "c \<in> set (elements L)" and cx: "lt L c x"
      by (simp_all add: lower_covers_iff)
    have "leq L x c"
    proof (rule join_least [OF jB cE])
      fix b assume b: "b \<in> set B"
      with BE have bE: "b \<in> set (elements L)" by blast
      have bx: "leq L b x" by (rule join_upper [OF jB b])
      show "leq L b c"
      proof (rule ccontr)
        assume "\<not> leq L b c"
        with f [OF c(1)] bE bx have "leq L (f c) b" by blast
        with no b c(2) show False by blast
      qed
    qed
    with cx have "c = x" using P cE x by (blast intro: poset_antisym lt_leq)
    with cx show False by (simp add: lt_def)
  qed
  show ?thesis
    by (rule canonical_joinands_exists_if [OF jA AE anti ref])
qed

lemma extended_kappa_total:
  assumes Lat: "is_lattice L" and sd: "is_semidistributive L" and x: "x \<in> set (elements L)"
  shows "\<exists>k\<in>set (elements L). extended_kappa L x = Some k"
proof -
  from sd have msd: "is_meet_semidistributive L" and jsd: "is_join_semidistributive L"
    by (simp_all add: is_semidistributive_def)
  from canonical_joinands_exists [OF Lat jsd x] obtain A
    where cj: "canonical_joinands L x = Some A" by blast
  note AE = canonical_joinands_SomeD(1) [OF cj]
  have "\<exists>k. k \<in> set (elements L) \<and> kappa_of L a = Some k" if a: "a \<in> set A" for a
  proof -
    from a AE have aE: "a \<in> set (elements L)" by blast
    from canonical_joinand_join_irreducible [OF Lat cj a] obtain l
      where l: "lower_covers L a = [l]" by blast
    from hasse_kappa_exists [OF Lat msd aE l] show ?thesis
      by (auto simp: kappa_of_eq)
  qed
  then have "\<forall>a\<in>set A. \<exists>k. k \<in> set (elements L) \<and> kappa_of L a = Some k" by blast
  then have "\<exists>g. \<forall>a\<in>set A. g a \<in> set (elements L) \<and> kappa_of L a = Some (g a)"
    by (rule bchoice)
  then obtain g where g: "\<forall>a\<in>set A. g a \<in> set (elements L) \<and> kappa_of L a = Some (g a)"
    by blast
  then have m: "map (kappa_of L) A = map Some (map g A)" by simp
  have "set (map g A) \<subseteq> set (elements L)" using g by auto
  from meet_exists [OF Lat this] obtain k where k: "meet L (map g A) = Some k" by blast
  have t: "those (map (kappa_of L) A) = Some (map g A)"
    unfolding m by (rule those_map_Some)
  have "extended_kappa L x = Some k"
    using cj k t by (simp add: extended_kappa_def meet_vals_def)
  with meet_elem [OF k] show ?thesis by blast
qed

lemma kappa_total:
  assumes "is_lattice L" and "is_semidistributive L" and "x \<in> set (elements L)"
  shows "\<exists>k\<in>set (elements L). kappa L x = Inr (Some k)"
  using extended_kappa_total [OF assms] assms(3) by (auto simp: kappa_def)

lemma wide_lequal_eq:
  assumes "U \<in> set (elements L)" and "T \<in> set (elements L)"
    and "kappa L U = Inr (Some kU)" and "kappa L T = Inr (Some kT)"
  shows "wide_lequal L U T = Inr (is_lequal L U T \<and> is_gequal L kU kT)"
  using assms by (simp add: wide_lequal_def is_gequal_val_def)

section \<open>The order of wide subcategories\<close>

lemma wide_lequal_order_sd:
  assumes Lat: "is_lattice L" and sd: "is_semidistributive L"
  shows "(\<forall>U\<in>set (elements L). \<forall>T\<in>set (elements L).
            \<exists>kU kT. kappa L U = Inr (Some kU) \<and> kappa L T = Inr (Some kT) \<and>
              wide_lequal L U T = Inr (is_lequal L U T \<and> is_gequal L kU kT)) \<and>
         (\<forall>U\<in>set (elements L). wide_lequal L U U = Inr True) \<and>
         (\<forall>U\<in>set (elements L). \<forall>T\<in>set (elements L).
            wide_lequal L U T = Inr True \<and> wide_lequal L T U = Inr True \<longrightarrow> U = T) \<and>
         (\<forall>U\<in>set (elements L). \<forall>T\<in>set (elements L). \<forall>V\<in>set (elements L).
            wide_lequal L U T = Inr True \<and> wide_lequal L T V = Inr True \<longrightarrow>
            wide_lequal L U V = Inr True)"
proof -
  note P = lattice_poset [OF Lat]
  have "\<forall>x\<in>set (elements L). \<exists>k. k \<in> set (elements L) \<and> kappa L x = Inr (Some k)"
    using kappa_total [OF Lat sd] by blast
  then have "\<exists>\<kappa>. \<forall>x\<in>set (elements L). \<kappa> x \<in> set (elements L) \<and> kappa L x = Inr (Some (\<kappa> x))"
    by (rule bchoice)
  then obtain \<kappa> where kE: "\<And>x. x \<in> set (elements L) \<Longrightarrow> \<kappa> x \<in> set (elements L)"
    and k: "\<And>x. x \<in> set (elements L) \<Longrightarrow> kappa L x = Inr (Some (\<kappa> x))"
    by blast
  have eq: "wide_lequal L U T = Inr (leq L U T \<and> leq L (\<kappa> T) (\<kappa> U))"
    if "U \<in> set (elements L)" "T \<in> set (elements L)" for U T
    using wide_lequal_eq [OF that k [OF that(1)] k [OF that(2)]]
    by (simp add: is_lequal_def is_gequal_def)
  show ?thesis
  proof (intro conjI ballI impI)
    fix U T assume U: "U \<in> set (elements L)" and T: "T \<in> set (elements L)"
    from wide_lequal_eq [OF U T k [OF U] k [OF T]] k [OF U] k [OF T]
    show "\<exists>kU kT. kappa L U = Inr (Some kU) \<and> kappa L T = Inr (Some kT) \<and>
            wide_lequal L U T = Inr (is_lequal L U T \<and> is_gequal L kU kT)"
      by blast
  next
    fix U assume U: "U \<in> set (elements L)"
    show "wide_lequal L U U = Inr True"
      using eq [OF U U] poset_refl [OF P U] poset_refl [OF P kE [OF U]] by simp
  next
    fix U T assume U: "U \<in> set (elements L)" and T: "T \<in> set (elements L)"
      and h: "wide_lequal L U T = Inr True \<and> wide_lequal L T U = Inr True"
    with eq [OF U T] eq [OF T U] have "leq L U T" "leq L T U" by simp_all
    then show "U = T" using P U T by (blast intro: poset_antisym)
  next
    fix U T V assume U: "U \<in> set (elements L)" and T: "T \<in> set (elements L)"
      and V: "V \<in> set (elements L)"
      and h: "wide_lequal L U T = Inr True \<and> wide_lequal L T V = Inr True"
    with eq [OF U T] eq [OF T V]
    have a: "leq L U T" "leq L T V" and b: "leq L (\<kappa> T) (\<kappa> U)" "leq L (\<kappa> V) (\<kappa> T)"
      by simp_all
    from a have "leq L U V" using P U T V by (blast intro: poset_trans)
    moreover from b have "leq L (\<kappa> V) (\<kappa> U)"
      using P kE [OF U] kE [OF T] kE [OF V] by (blast intro: poset_trans)
    ultimately show "wide_lequal L U V = Inr True"
      using eq [OF U V] by simp
  qed
qed

lemma wide_lequal_True_iff:
  assumes "U \<in> set (elements L)" and "T \<in> set (elements L)"
  shows "wide_lequal L U T = Inr True \<longleftrightarrow>
           is_lequal L U T \<and>
           (\<exists>kU kT. kappa L U = Inr (Some kU) \<and> kappa L T = Inr (Some kT) \<and>
              is_gequal L kU kT)"
  using assms
  by (cases "extended_kappa L U"; cases "extended_kappa L T")
    (simp_all add: wide_lequal_def kappa_def is_gequal_val_def)

text \<open>
  Claim C7. For elements \<open>U\<close>, \<open>T\<close> the call \<open>wide_lequal(U, T)\<close> returns \<open>True\<close> exactly
  when \<open>U \<le> T\<close> holds and \<open>kappa(U)\<close>, \<open>kappa(T)\<close> exist with \<open>kappa(U) \<ge> kappa(T)\<close>.
  In a finite semidistributive lattice the kappa of every element exists,
  \<open>wide_lequal\<close> returns without error, and the relation is reflexive, antisymmetric
  and transitive on the elements.
\<close>

theorem wide_lequal_partial_order:
  "(\<forall>U\<in>set (elements L). \<forall>T\<in>set (elements L).
      wide_lequal L U T = Inr True \<longleftrightarrow>
        is_lequal L U T \<and>
        (\<exists>kU kT. kappa L U = Inr (Some kU) \<and> kappa L T = Inr (Some kT) \<and>
           is_gequal L kU kT)) \<and>
   (is_lattice L \<and> is_semidistributive L \<longrightarrow>
      (\<forall>U\<in>set (elements L). \<forall>T\<in>set (elements L).
         \<exists>kU kT. kappa L U = Inr (Some kU) \<and> kappa L T = Inr (Some kT) \<and>
           wide_lequal L U T = Inr (is_lequal L U T \<and> is_gequal L kU kT)) \<and>
      (\<forall>U\<in>set (elements L). wide_lequal L U U = Inr True) \<and>
      (\<forall>U\<in>set (elements L). \<forall>T\<in>set (elements L).
         wide_lequal L U T = Inr True \<and> wide_lequal L T U = Inr True \<longrightarrow> U = T) \<and>
      (\<forall>U\<in>set (elements L). \<forall>T\<in>set (elements L). \<forall>V\<in>set (elements L).
         wide_lequal L U T = Inr True \<and> wide_lequal L T V = Inr True \<longrightarrow>
         wide_lequal L U V = Inr True))"
proof (rule conjI)
  show "\<forall>U\<in>set (elements L). \<forall>T\<in>set (elements L).
      wide_lequal L U T = Inr True \<longleftrightarrow>
        is_lequal L U T \<and>
        (\<exists>kU kT. kappa L U = Inr (Some kU) \<and> kappa L T = Inr (Some kT) \<and>
           is_gequal L kU kT)"
    by (simp add: wide_lequal_True_iff)
next
  show "is_lattice L \<and> is_semidistributive L \<longrightarrow>
      (\<forall>U\<in>set (elements L). \<forall>T\<in>set (elements L).
         \<exists>kU kT. kappa L U = Inr (Some kU) \<and> kappa L T = Inr (Some kT) \<and>
           wide_lequal L U T = Inr (is_lequal L U T \<and> is_gequal L kU kT)) \<and>
      (\<forall>U\<in>set (elements L). wide_lequal L U U = Inr True) \<and>
      (\<forall>U\<in>set (elements L). \<forall>T\<in>set (elements L).
         wide_lequal L U T = Inr True \<and> wide_lequal L T U = Inr True \<longrightarrow> U = T) \<and>
      (\<forall>U\<in>set (elements L). \<forall>T\<in>set (elements L). \<forall>V\<in>set (elements L).
         wide_lequal L U T = Inr True \<and> wide_lequal L T V = Inr True \<longrightarrow>
         wide_lequal L U V = Inr True)"
  proof (rule impI)
    assume "is_lattice L \<and> is_semidistributive L"
    then have Lat: "is_lattice L" and sd: "is_semidistributive L" by simp_all
    show "(\<forall>U\<in>set (elements L). \<forall>T\<in>set (elements L).
         \<exists>kU kT. kappa L U = Inr (Some kU) \<and> kappa L T = Inr (Some kT) \<and>
           wide_lequal L U T = Inr (is_lequal L U T \<and> is_gequal L kU kT)) \<and>
      (\<forall>U\<in>set (elements L). wide_lequal L U U = Inr True) \<and>
      (\<forall>U\<in>set (elements L). \<forall>T\<in>set (elements L).
         wide_lequal L U T = Inr True \<and> wide_lequal L T U = Inr True \<longrightarrow> U = T) \<and>
      (\<forall>U\<in>set (elements L). \<forall>T\<in>set (elements L). \<forall>V\<in>set (elements L).
         wide_lequal L U T = Inr True \<and> wide_lequal L T V = Inr True \<longrightarrow>
         wide_lequal L U V = Inr True)"
      by (rule wide_lequal_order_sd [OF Lat sd])
  qed
qed

theorem wide_lequal_partial_order_witness:
  "is_lattice diamond \<and> is_semidistributive diamond \<and>
   2 \<in> set (elements diamond) \<and> 6 \<in> set (elements diamond) \<and>
   kappa diamond 2 = Inr (Some 3) \<and> kappa diamond 6 = Inr (Some 1) \<and>
   wide_lequal diamond 2 6 = Inr (is_lequal diamond 2 6 \<and> is_gequal diamond 3 1) \<and>
   wide_lequal diamond 2 6 = Inr True \<and> wide_lequal diamond 6 6 = Inr True \<and>
   wide_lequal diamond 6 2 = Inr False"
proof -
  have a: "is_lattice diamond" by code_simp
  have b: "is_semidistributive diamond" by code_simp
  have c: "2 \<in> set (elements diamond)" and d: "6 \<in> set (elements diamond)"
    by (simp_all add: diamond_def)
  have e: "kappa diamond 2 = Inr (Some 3)" by code_simp
  have f: "kappa diamond 6 = Inr (Some 1)" by code_simp
  note po = mp [OF conjunct2 [OF wide_lequal_partial_order [of diamond]] conjI [OF a b]]
  from po have "\<forall>U\<in>set (elements diamond). \<forall>T\<in>set (elements diamond).
      \<exists>kU kT. kappa diamond U = Inr (Some kU) \<and> kappa diamond T = Inr (Some kT) \<and>
        wide_lequal diamond U T = Inr (is_lequal diamond U T \<and> is_gequal diamond kU kT)"
    by (rule conjunct1)
  with c d obtain kU kT where "kappa diamond 2 = Inr (Some kU)"
    and "kappa diamond 6 = Inr (Some kT)"
    and "wide_lequal diamond 2 6 = Inr (is_lequal diamond 2 6 \<and> is_gequal diamond kU kT)"
    by blast
  with e f
  have g: "wide_lequal diamond 2 6 = Inr (is_lequal diamond 2 6 \<and> is_gequal diamond 3 1)"
    by simp
  then have h: "wide_lequal diamond 2 6 = Inr True"
    by (simp add: is_lequal_def is_gequal_def diamond_def)
  from po have "\<forall>U\<in>set (elements diamond). wide_lequal diamond U U = Inr True"
    by (elim conjE)
  with d have i: "wide_lequal diamond 6 6 = Inr True" by blast
  have j: "wide_lequal diamond 6 2 = Inr False" by code_simp
  from a b c d e f g h i j show ?thesis by blast
qed

end
